theory Spec2Isabelle
  imports Main "HOL-Library.Monad_Syntax"
begin

section \<open>The string arena (class StringArena of udpipe_wrapper.cpp)\<close>

text \<open>
  A byte of a block obtained from \<^verbatim>\<open>std::malloc\<close> is either indeterminate (\<open>None\<close>,
  never written) or holds a character. The arena is the only owner of its blocks (all
  members are private), so the storage of the blocks is kept inside the arena value:
  \<open>blocks\<close> lists the blocks in the order of \<^verbatim>\<open>push_back\<close>, and a \<^verbatim>\<open>char*\<close> into a block
  is the position of the block in \<open>blocks\<close> together with a byte offset. Blocks are only
  ever appended, so a position names the same block for the lifetime of the arena.

  \<^verbatim>\<open>size_t\<close> values are natural numbers: \<open>current_offset\<close> never exceeds the size of a
  block by more than the alignment pad and \<open>required\<close> is the size of an existing string
  plus one, so no sum of the source can wrap. The members \<^verbatim>\<open>blocks_\<close>, \<^verbatim>\<open>current_block_\<close>,
  \<^verbatim>\<open>current_offset_\<close> and \<^verbatim>\<open>block_size_\<close> appear without the trailing underscore.
\<close>

type_synonym byte = "char option"

definition NUL :: char where
  "NUL = CHR 0x00"

text \<open>
  A \<^verbatim>\<open>char*\<close> handed out by the arena: the null pointer, the address of the function-local
  \<^verbatim>\<open>static char empty_str[] = ""\<close>, or a position inside a block.
\<close>

datatype cptr = CNull | StaticEmpty | BlockPtr nat nat

record StringArena =
  blocks :: "byte list list"
  current_block :: "nat option"
  current_offset :: nat
  block_size :: nat

definition DEFAULT_BLOCK_SIZE :: nat where
  "DEFAULT_BLOCK_SIZE = 8192"

text \<open>\<^verbatim>\<open>sizeof(void*)\<close> on the 64-bit targets of the package.\<close>

definition sizeof_void_ptr :: nat where
  "sizeof_void_ptr = 8"

text \<open>The constructor \<^verbatim>\<open>StringArena(size_t block_size = DEFAULT_BLOCK_SIZE)\<close>.\<close>

definition new_StringArena :: "nat \<Rightarrow> StringArena" where
  "new_StringArena n =
     \<lparr>blocks = [], current_block = None, current_offset = 0, block_size = n\<rparr>"

text \<open>
  Whether a call of \<^verbatim>\<open>std::malloc\<close> succeeds is decided by the environment. The decisions
  are an input: a list of outcomes consumed one per call, \<open>True\<close> for a block and \<open>False\<close>
  for a null pointer; once the list is used up every call succeeds.
\<close>

definition malloc_ok :: "bool list \<Rightarrow> bool \<times> bool list" where
  "malloc_ok orc = (case orc of [] \<Rightarrow> (True, []) | b # bs \<Rightarrow> (b, bs))"

text \<open>\<^verbatim>\<open>std::memcpy(blk + off, src, length src)\<close> on the bytes of one block.\<close>

definition memcpy :: "byte list \<Rightarrow> nat \<Rightarrow> char list \<Rightarrow> byte list" where
  "memcpy blk off src = take off blk @ map Some src @ drop (off + length src) blk"

text \<open>
  Lines 60 to 63 of \<^verbatim>\<open>allocate\<close>: copy \<open>s\<close> and its terminator to the cursor of block \<open>i\<close>
  (the current block) and advance the cursor.
\<close>

definition put_string :: "string \<Rightarrow> nat \<Rightarrow> StringArena \<Rightarrow> cptr \<times> StringArena" where
  "put_string s i ar =
     (BlockPtr i (current_offset ar),
      ar\<lparr>blocks := (blocks ar)[i := memcpy (blocks ar ! i) (current_offset ar) (s @ [NUL])],
         current_offset := current_offset ar + (length s + 1)\<rparr>)"

text \<open>Lines 43 to 45: round the cursor up to a multiple of the pointer size.\<close>

definition align_offset :: "StringArena \<Rightarrow> StringArena" where
  "align_offset ar =
     (let align = sizeof_void_ptr
      in if current_offset ar mod align \<noteq> 0
         then ar\<lparr>current_offset := current_offset ar + (align - current_offset ar mod align)\<rparr>
         else ar)"

text \<open>
  Lines 48 to 57, entered when there is no current block or the string does not fit: ask
  for a block of \<open>max block_size required\<close> bytes; without one, forget the current block
  and hand out the static empty string.
\<close>

definition grow :: "string \<Rightarrow> StringArena \<Rightarrow> bool list \<Rightarrow> cptr \<times> StringArena \<times> bool list" where
  "grow s ar orc =
     (let required = length s + 1;
          new_block_size = max (block_size ar) required;
          (ok, orc') = malloc_ok orc
      in if \<not> ok then (StaticEmpty, ar\<lparr>current_block := None\<rparr>, orc')
         else
           let i = length (blocks ar);
               (p, ar') = put_string s i
                  (ar\<lparr>blocks := blocks ar @ [replicate new_block_size None],
                      current_block := Some i,
                      current_offset := 0,
                      block_size := new_block_size\<rparr>)
           in (p, ar', orc'))"

text \<open>The condition of line 47, evaluated after the cursor was aligned.\<close>

definition needs_block :: "string \<Rightarrow> StringArena \<Rightarrow> bool" where
  "needs_block s ar =
     (current_block (align_offset ar) = None \<or>
      current_offset (align_offset ar) + (length s + 1) > block_size (align_offset ar))"

definition allocate :: "string \<Rightarrow> StringArena \<Rightarrow> bool list \<Rightarrow> cptr \<times> StringArena \<times> bool list" where
  "allocate s ar orc =
     (let ar1 = align_offset ar
      in case current_block ar1 of
           None \<Rightarrow> grow s ar1 orc
         | Some i \<Rightarrow>
             if current_offset ar1 + (length s + 1) > block_size ar1 then grow s ar1 orc
             else (let (p, ar') = put_string s i ar1 in (p, ar', orc)))"

definition allocate_empty :: "StringArena \<Rightarrow> bool list \<Rightarrow> cptr \<times> StringArena \<times> bool list" where
  "allocate_empty ar orc = allocate [] ar orc"

text \<open>
  Reading a C string: the characters in front of the first terminator. Running into an
  indeterminate byte or off the end of the block is not a string.
\<close>

fun c_str :: "byte list \<Rightarrow> string option" where
  "c_str [] = None"
| "c_str (None # bs) = None"
| "c_str (Some c # bs) = (if c = NUL then Some [] else map_option ((#) c) (c_str bs))"

definition deref :: "StringArena \<Rightarrow> cptr \<Rightarrow> string option" where
  "deref ar p =
     (case p of
        CNull \<Rightarrow> None
      | StaticEmpty \<Rightarrow> Some []
      | BlockPtr i off \<Rightarrow>
          if i < length (blocks ar) then c_str (drop off (blocks ar ! i)) else None)"

text \<open>The \<open>n\<close> bytes of memory that a pointer into a block addresses.\<close>

definition bytes_at :: "StringArena \<Rightarrow> cptr \<Rightarrow> nat \<Rightarrow> byte list" where
  "bytes_at ar p n =
     (case p of
        BlockPtr i off \<Rightarrow> if i < length (blocks ar) then take n (drop off (blocks ar ! i)) else []
      | _ \<Rightarrow> [])"

text \<open>What a reader of the \<^verbatim>\<open>const char*\<close> sees of a \<^verbatim>\<open>std::string\<close> copied with its terminator.\<close>

definition as_c_string :: "string \<Rightarrow> string" where
  "as_c_string s = takeWhile (\<lambda>c. c \<noteq> NUL) s"

text \<open>A sequence of calls of \<^verbatim>\<open>allocate\<close> on one arena, collecting the returned pointers.\<close>

fun allocate_all :: "string list \<Rightarrow> StringArena \<Rightarrow> bool list \<Rightarrow> cptr list \<times> StringArena \<times> bool list" where
  "allocate_all [] ar orc = ([], ar, orc)"
| "allocate_all (s # ss) ar orc =
     (let (p, ar1, orc1) = allocate s ar orc;
          (ps, ar2, orc2) = allocate_all ss ar1 orc1
      in (p # ps, ar2, orc2))"

text \<open>
  The representation invariant of the class: the current block is the block pushed last,
  \<open>block_size\<close> is its size, the cursor is inside it and nothing was written behind the
  cursor. It holds after the constructor and is kept by \<^verbatim>\<open>allocate\<close> (lemmas
  \<open>arena_inv_new\<close> and \<open>arena_inv_allocate\<close>); on such an arena \<open>put_string\<close> is only
  applied to a position of \<open>blocks\<close> and copies inside the block.
\<close>

definition the_default :: "'a \<Rightarrow> 'a option \<Rightarrow> 'a" where
  "the_default d x = (case x of None \<Rightarrow> d | Some y \<Rightarrow> y)"

definition arena_inv :: "StringArena \<Rightarrow> bool" where
  "arena_inv ar =
     (case current_block ar of
        None \<Rightarrow> True
      | Some i \<Rightarrow>
          Suc i = length (blocks ar) \<and>
          length (blocks ar ! i) = block_size ar \<and>
          current_offset ar \<le> block_size ar \<and>
          drop (current_offset ar) (blocks ar ! i) =
            replicate (block_size ar - current_offset ar) None)"


section \<open>Tokens, sentence views, documents and the store\<close>

text \<open>
  The structs of \<^verbatim>\<open>udpipe_wrapper.h\<close>. The members of \<^verbatim>\<open>udpipe_token\<close> carry the prefix
  \<open>t\<close>, those of \<^verbatim>\<open>udpipe_sentence_view\<close> the prefix \<open>sv\<close> and those of
  \<^verbatim>\<open>udpipe_doc_view\<close> the prefix \<open>doc\<close>. A pointer to an allocation is an address or null
  (\<open>None\<close>); the strings of a token are pointers into the arena of its document.
\<close>

type_synonym addr = nat

record udpipe_token =
  t_id :: int
  t_head :: int
  t_form :: cptr
  t_lemma :: cptr
  t_upos :: cptr
  t_xpostag :: cptr
  t_feats :: cptr
  t_deprel :: cptr
  t_start :: nat
  t_end :: nat

record udpipe_sentence_view =
  sv_tokens :: "addr option"
  sv_count :: nat

record udpipe_doc_view =
  doc_sentences :: "addr option"
  doc_count :: nat
  doc_arena :: "addr option"

text \<open>
  What an allocation holds. Arrays from \<^verbatim>\<open>std::malloc\<close> are \<open>TokenArray\<close>, \<open>SentenceArray\<close>
  and \<open>DocArray\<close>; \<open>ArenaObj\<close> is a \<^verbatim>\<open>new StringArena()\<close>; \<open>VectorStorage\<close> is the element
  storage that a \<^verbatim>\<open>std::vector<udpipe_sentence_view>\<close> obtained from its allocator and
  releases in its destructor.
\<close>

datatype obj =
    ArenaObj StringArena
  | TokenArray "udpipe_token list"
  | SentenceArray "udpipe_sentence_view list"
  | DocArray "udpipe_doc_view list"
  | VectorStorage "udpipe_sentence_view list"

text \<open>
  The store: the cell at position \<open>a\<close> is the allocation at address \<open>a\<close>, \<open>None\<close> once it
  was released. A new allocation takes the next position, so addresses are never reused
  and a pointer to a released allocation stays recognisable. \<open>outcomes\<close> holds the
  outcomes of the calls of \<^verbatim>\<open>std::malloc\<close> still to come.
\<close>

record heap =
  cells :: "obj option list"
  outcomes :: "bool list"

definition lookup :: "heap \<Rightarrow> addr \<Rightarrow> obj option" where
  "lookup h a = (if a < length (cells h) then cells h ! a else None)"

text \<open>
  \<^verbatim>\<open>operator new\<close>, used for the arena and by the vectors. It throws rather than
  returning null; running out of memory there is outside the model.
\<close>

definition new_obj :: "obj \<Rightarrow> heap \<Rightarrow> addr \<times> heap" where
  "new_obj ob h = (length (cells h), h\<lparr>cells := cells h @ [Some ob]\<rparr>)"

text \<open>
  \<^verbatim>\<open>std::malloc\<close> of an array followed by the \<^verbatim>\<open>std::memcpy\<close> that fills it (the source never
  uses the array in between): the new array with its contents, or the null pointer.
\<close>

definition malloc :: "obj \<Rightarrow> heap \<Rightarrow> addr option \<times> heap" where
  "malloc ob h =
     (let (ok, orc') = malloc_ok (outcomes h)
      in if ok then (Some (length (cells h)), h\<lparr>cells := cells h @ [Some ob], outcomes := orc'\<rparr>)
         else (None, h\<lparr>outcomes := orc'\<rparr>))"

text \<open>
  \<^verbatim>\<open>std::free\<close>. Freeing the null pointer does nothing. Freeing anything that is not a live
  array from \<^verbatim>\<open>std::malloc\<close> (a released array, an object made by \<^verbatim>\<open>new\<close>, the storage of a
  vector) is undefined behaviour: the result \<open>None\<close>.
\<close>

definition free :: "addr option \<Rightarrow> heap \<Rightarrow> heap option" where
  "free p h =
     (case p of
        None \<Rightarrow> Some h
      | Some a \<Rightarrow>
          (case lookup h a of
             Some (TokenArray ts) \<Rightarrow> Some (h\<lparr>cells := (cells h)[a := None]\<rparr>)
           | Some (SentenceArray svs) \<Rightarrow> Some (h\<lparr>cells := (cells h)[a := None]\<rparr>)
           | Some (DocArray ds) \<Rightarrow> Some (h\<lparr>cells := (cells h)[a := None]\<rparr>)
           | _ \<Rightarrow> None))"

text \<open>
  \<^verbatim>\<open>delete static_cast<StringArena*>(p)\<close>: the destructor frees every block of the arena,
  then the object goes. Undefined if \<open>p\<close> is not a live arena.
\<close>

definition delete_arena :: "addr \<Rightarrow> heap \<Rightarrow> heap option" where
  "delete_arena a h =
     (case lookup h a of
        Some (ArenaObj ar) \<Rightarrow> Some (h\<lparr>cells := (cells h)[a := None]\<rparr>)
      | _ \<Rightarrow> None)"

text \<open>\<^verbatim>\<open>arena->allocate(s)\<close> through the pointer \<open>a\<close>.\<close>

definition arena_allocate :: "addr \<Rightarrow> string \<Rightarrow> heap \<Rightarrow> (cptr \<times> heap) option" where
  "arena_allocate a s h =
     (case lookup h a of
        Some (ArenaObj ar) \<Rightarrow>
          (let (p, ar', orc') = allocate s ar (outcomes h)
           in Some (p, h\<lparr>cells := (cells h)[a := Some (ArenaObj ar')], outcomes := orc'\<rparr>))
      | _ \<Rightarrow> None)"

definition arena_allocate_empty :: "addr \<Rightarrow> heap \<Rightarrow> (cptr \<times> heap) option" where
  "arena_allocate_empty a h = arena_allocate a [] h"

text \<open>The string a token field points to, read through the arena of the document.\<close>

definition string_at :: "heap \<Rightarrow> addr option \<Rightarrow> cptr \<Rightarrow> string option" where
  "string_at h a p =
     (case a of
        None \<Rightarrow> None
      | Some a' \<Rightarrow> (case lookup h a' of Some (ArenaObj ar) \<Rightarrow> deref ar p | _ \<Rightarrow> None))"

section \<open>Releasing a document (udpipe_free_doc, udpipe_free_batch)\<close>

definition zero_doc :: udpipe_doc_view where
  "zero_doc = \<lparr>doc_sentences = None, doc_count = 0, doc_arena = None\<rparr>"

text \<open>
  The elements \<^verbatim>\<open>doc->sentences[0 .. count-1]\<close> that the loop of \<^verbatim>\<open>udpipe_free_doc\<close> reads:
  the pointer has to address live storage of at least \<open>n\<close> sentence views.
\<close>

definition read_sentences :: "addr \<Rightarrow> nat \<Rightarrow> heap \<Rightarrow> udpipe_sentence_view list option" where
  "read_sentences p n h =
     (case lookup h p of
        Some (SentenceArray svs) \<Rightarrow> if n \<le> length svs then Some (take n svs) else None
      | Some (VectorStorage svs) \<Rightarrow> if n \<le> length svs then Some (take n svs) else None
      | _ \<Rightarrow> None)"

text \<open>Lines 203 to 208: free the token array of each sentence view.\<close>

fun free_tokens :: "udpipe_sentence_view list \<Rightarrow> heap \<Rightarrow> heap option" where
  "free_tokens [] h = Some h"
| "free_tokens (sv # svs) h =
     (case sv_tokens sv of
        None \<Rightarrow> free_tokens svs h
      | Some q \<Rightarrow> (case free (Some q) h of None \<Rightarrow> None | Some h' \<Rightarrow> free_tokens svs h'))"

text \<open>
  \<^verbatim>\<open>udpipe_free_doc(doc)\<close>: \<open>doc\<close> is the document behind the pointer (\<open>None\<close> for a null
  pointer); the result is the document as the call leaves it, and the store.
\<close>

definition udpipe_free_doc ::
  "udpipe_doc_view option \<Rightarrow> heap \<Rightarrow> (udpipe_doc_view option \<times> heap) option" where
  "udpipe_free_doc doc h =
     (case doc of
        None \<Rightarrow> Some (None, h)
      | Some d \<Rightarrow>
          do {
            h1 \<leftarrow> (case doc_arena d of None \<Rightarrow> Some h | Some a \<Rightarrow> delete_arena a h);
            h2 \<leftarrow> (case doc_sentences d of
                     None \<Rightarrow> Some h1
                   | Some p \<Rightarrow>
                       do {
                         svs \<leftarrow> read_sentences p (doc_count d) h1;
                         h' \<leftarrow> free_tokens svs h1;
                         free (Some p) h'
                       });
            Some (Some (d\<lparr>doc_sentences := None, doc_count := 0, doc_arena := None\<rparr>), h2)
          })"

text \<open>
  The loop of \<^verbatim>\<open>udpipe_free_batch\<close> and of the cleanup in \<^verbatim>\<open>udpipe_tag_batch\<close> over an array
  of documents held by value: release each and keep what the call leaves in its place.
\<close>

fun free_docs :: "udpipe_doc_view list \<Rightarrow> heap \<Rightarrow> (udpipe_doc_view list \<times> heap) option" where
  "free_docs [] h = Some ([], h)"
| "free_docs (d # ds) h =
     do {
       (d', h1) \<leftarrow> udpipe_free_doc (Some d) h;
       (ds', h2) \<leftarrow> free_docs ds h1;
       Some (the_default d d' # ds', h2)
     }"

section \<open>The engine behind the model handle\<close>

text \<open>
  The UDPipe library itself (\<^verbatim>\<open>udpipe.h\<close>: \<^verbatim>\<open>model\<close>, \<^verbatim>\<open>input_format\<close>, \<^verbatim>\<open>sentence\<close>, \<^verbatim>\<open>word\<close>) is
  not part of the wrapper; it is a parameter of every function below.

  Of a \<^verbatim>\<open>word\<close> the wrapper reads the members below (prefix \<open>w\<close>) and calls
  \<^verbatim>\<open>get_token_range\<close>, which either fails or yields the two offsets. Of a \<^verbatim>\<open>sentence\<close> it
  reads only \<^verbatim>\<open>words\<close>.
\<close>

record word =
  w_id :: int
  w_head :: int
  w_form :: string
  w_lemma :: string
  w_upostag :: string
  w_xpostag :: string
  w_feats :: string
  w_deprel :: string
  w_token_range :: "(nat \<times> nat) option"

type_synonym sentence = "word list"

text \<open>
  A tokenizer loaded with a text answers the calls of \<^verbatim>\<open>next_sentence(s, error)\<close> one after
  the other. Its answers are given as a script: the list holds, for each call that
  returns \<^verbatim>\<open>true\<close>, the sentence and the value of \<^verbatim>\<open>error\<close> the call leaves behind; the
  second component is the value of \<^verbatim>\<open>error\<close> left by the final call, which returns
  \<^verbatim>\<open>false\<close>. (A tokenizer that never returns \<^verbatim>\<open>false\<close> would keep the wrapper in its loop
  forever; a script is finite.)
\<close>

type_synonym session = "(sentence \<times> string) list \<times> string"

text \<open>
  \<^verbatim>\<open>new_tokenizer(options)\<close> yields a reader (a function from the text given to
  \<^verbatim>\<open>set_text\<close> to the session) or null. \<^verbatim>\<open>tag\<close> and \<^verbatim>\<open>parse\<close>, called with
  \<^verbatim>\<open>model::DEFAULT\<close>, take the sentence and the current value of \<^verbatim>\<open>error\<close> and give their
  return value, the sentence and \<^verbatim>\<open>error\<close> as they leave them.
\<close>

record model =
  m_new_tokenizer :: "string \<Rightarrow> (string \<Rightarrow> session) option"
  m_tag :: "sentence \<Rightarrow> string \<Rightarrow> bool \<times> sentence \<times> string"
  m_parse :: "sentence \<Rightarrow> string \<Rightarrow> bool \<times> sentence \<times> string"

section \<open>Building the tokens of a sentence\<close>

text \<open>
  The body of the word loop of \<^verbatim>\<open>udpipe_tag_structured\<close> (lines 151 to 163) and of the
  worker of \<^verbatim>\<open>udpipe_tag_batch\<close> (lines 340 to 351; there the \<^verbatim>\<open>else\<close> branch is left to
  the value initialisation \<^verbatim>\<open>udpipe_token t{}\<close>, which gives the same zeros).
\<close>

definition tagged_token :: "addr \<Rightarrow> word \<Rightarrow> heap \<Rightarrow> (udpipe_token \<times> heap) option" where
  "tagged_token arena w h =
     do {
       (form, h1) \<leftarrow> arena_allocate arena (w_form w) h;
       (lemma, h2) \<leftarrow> arena_allocate arena (w_lemma w) h1;
       (upos, h3) \<leftarrow> arena_allocate arena (w_upostag w) h2;
       (xpostag, h4) \<leftarrow> arena_allocate arena (w_xpostag w) h3;
       (feats, h5) \<leftarrow> arena_allocate arena (w_feats w) h4;
       (deprel, h6) \<leftarrow> arena_allocate arena (w_deprel w) h5;
       Some (\<lparr>t_id = w_id w, t_head = w_head w,
               t_form = form, t_lemma = lemma, t_upos = upos, t_xpostag = xpostag,
               t_feats = feats, t_deprel = deprel,
               t_start = (case w_token_range w of Some (start, end') \<Rightarrow> start | None \<Rightarrow> 0),
               t_end = (case w_token_range w of Some (start, end') \<Rightarrow> end' | None \<Rightarrow> 0)\<rparr>,
             h6)
     }"

text \<open>The body of the word loop of \<^verbatim>\<open>udpipe_tokenize_structured\<close> (lines 246 to 258).\<close>

definition tokenized_token :: "addr \<Rightarrow> word \<Rightarrow> heap \<Rightarrow> (udpipe_token \<times> heap) option" where
  "tokenized_token arena w h =
     do {
       (form, h1) \<leftarrow> arena_allocate arena (w_form w) h;
       (lemma, h2) \<leftarrow> arena_allocate_empty arena h1;
       (upos, h3) \<leftarrow> arena_allocate_empty arena h2;
       (xpostag, h4) \<leftarrow> arena_allocate_empty arena h3;
       (feats, h5) \<leftarrow> arena_allocate_empty arena h4;
       (deprel, h6) \<leftarrow> arena_allocate_empty arena h5;
       Some (\<lparr>t_id = w_id w, t_head = - 1,
               t_form = form, t_lemma = lemma, t_upos = upos, t_xpostag = xpostag,
               t_feats = feats, t_deprel = deprel,
               t_start = (case w_token_range w of Some (start, end') \<Rightarrow> start | None \<Rightarrow> 0),
               t_end = (case w_token_range w of Some (start, end') \<Rightarrow> end' | None \<Rightarrow> 0)\<rparr>,
             h6)
     }"

text \<open>
  \<^verbatim>\<open>for (const auto& w : s.words) { if (w.id <= 0) continue; ... toks.push_back(t); }\<close>
  with the loop body \<open>mk\<close>.
\<close>

fun word_loop ::
  "(addr \<Rightarrow> word \<Rightarrow> heap \<Rightarrow> (udpipe_token \<times> heap) option) \<Rightarrow>
   addr \<Rightarrow> word list \<Rightarrow> heap \<Rightarrow> (udpipe_token list \<times> heap) option" where
  "word_loop mk arena [] h = Some ([], h)"
| "word_loop mk arena (w # ws) h =
     (if w_id w \<le> 0 then word_loop mk arena ws h
      else
        do {
          (t, h1) \<leftarrow> mk arena w h;
          (toks, h2) \<leftarrow> word_loop mk arena ws h1;
          Some (t # toks, h2)
        })"

section \<open>The sentence loop\<close>

text \<open>
  What happens to a sentence between the tokenizer and the word loop. In
  \<^verbatim>\<open>udpipe_tag_structured\<close> and in the worker of \<^verbatim>\<open>udpipe_tag_batch\<close> the tagger runs and, if
  \<^verbatim>\<open>do_parse\<close> is set, the parser; each returning \<^verbatim>\<open>false\<close> leaves the loop. In
  \<^verbatim>\<open>udpipe_tokenize_structured\<close> nothing runs. The result is: whether to go on, the
  sentence, and \<^verbatim>\<open>error\<close>.
\<close>

definition tag_and_parse :: "model \<Rightarrow> bool \<Rightarrow> sentence \<Rightarrow> string \<Rightarrow> bool \<times> sentence \<times> string" where
  "tag_and_parse m do_parse s error =
     (let (ok, s1, error1) = m_tag m s error
      in if \<not> ok then (False, s1, error1)
         else if do_parse then m_parse m s1 error1
         else (True, s1, error1))"

definition tokenize_only :: "sentence \<Rightarrow> string \<Rightarrow> bool \<times> sentence \<times> string" where
  "tokenize_only s error = (True, s, error)"

text \<open>
  The three functions contain the same \<^verbatim>\<open>while (reader->next_sentence(s, error))\<close> loop
  (lines 139 to 174, 239 to 268, 329 to 360), differing in the engine calls (\<open>stage\<close>) and
  in the body of the word loop (\<open>mk\<close>). \<open>script\<close> and \<open>final\<close> are what is left of the
  session, \<open>sentences\<close> is the vector built so far. The result is the vector, \<^verbatim>\<open>error\<close>,
  the flag \<^verbatim>\<open>current_success\<close> that the worker of the batch keeps (\<open>False\<close> exactly when the
  loop was left by a \<^verbatim>\<open>break\<close>), and the store.
\<close>

fun sentence_loop ::
  "(sentence \<Rightarrow> string \<Rightarrow> bool \<times> sentence \<times> string) \<Rightarrow>
   (addr \<Rightarrow> word \<Rightarrow> heap \<Rightarrow> (udpipe_token \<times> heap) option) \<Rightarrow>
   addr \<Rightarrow> (sentence \<times> string) list \<Rightarrow> string \<Rightarrow> udpipe_sentence_view list \<Rightarrow> heap \<Rightarrow>
   (udpipe_sentence_view list \<times> string \<times> bool \<times> heap) option" where
  "sentence_loop stage mk arena [] final sentences h = Some (sentences, final, True, h)"
| "sentence_loop stage mk arena ((s, error) # script) final sentences h =
     (if error \<noteq> [] then Some (sentences, error, False, h)
      else
        (case stage s error of
           (ok, s', error') \<Rightarrow>
             if \<not> ok then Some (sentences, error', False, h)
             else
               do {
                 (toks, h1) \<leftarrow> word_loop mk arena s' h;
                 (case malloc (TokenArray toks) h1 of
                    (None, h2) \<Rightarrow> Some (sentences, ''alloc failure'', False, h2)
                  | (Some q, h2) \<Rightarrow>
                      sentence_loop stage mk arena script final
                        (sentences @ [\<lparr>sv_tokens = Some q, sv_count = length toks\<rparr>]) h2)
               }))"

text \<open>
  \<^verbatim>\<open>sentences.data()\<close>: null for a vector that never held an element, else the address
  of the storage of the vector. The storage enters the store at the moment its address
  is taken; where it was before does not matter, since no other address equals it.
\<close>

definition vector_data :: "udpipe_sentence_view list \<Rightarrow> heap \<Rightarrow> addr option \<times> heap" where
  "vector_data sentences h =
     (if sentences = [] then (None, h)
      else (let (p, h') = new_obj (VectorStorage sentences) h in (Some p, h')))"

text \<open>
  \<^verbatim>\<open>udpipe_doc_view tmp{sentences.data(), sentences.size()}; udpipe_free_doc(&tmp);\<close>
\<close>

definition free_partial :: "udpipe_sentence_view list \<Rightarrow> heap \<Rightarrow> heap option" where
  "free_partial sentences h =
     (let (p, h1) = vector_data sentences h
      in map_option snd
           (udpipe_free_doc
              (Some \<lparr>doc_sentences = p, doc_count = length sentences, doc_arena = None\<rparr>) h1))"

section \<open>udpipe_tag_structured and udpipe_tokenize_structured\<close>

text \<open>
  The arguments are the model behind \<^verbatim>\<open>handle\<close>, the text, \<^verbatim>\<open>do_parse\<close> and the document
  behind \<^verbatim>\<open>out_doc\<close>, each \<open>None\<close> for a null pointer. The result is the return value, the
  document behind \<^verbatim>\<open>out_doc\<close> after the call, and the store; \<open>None\<close> when the call runs
  into undefined behaviour.
\<close>

text \<open>
  What follows the loop in both functions (lines 176 to 190 and 270 to 280): with an error
  message, release what the vector holds and fail; else move the sentence views into an
  array from \<^verbatim>\<open>std::malloc\<close>. \<open>d\<close> is the document behind \<^verbatim>\<open>out_doc\<close> as the function set
  it up.
\<close>

definition finish_document ::
  "udpipe_doc_view \<Rightarrow> udpipe_sentence_view list \<Rightarrow> string \<Rightarrow> heap \<Rightarrow>
   (int \<times> udpipe_doc_view option \<times> heap) option" where
  "finish_document d sentences error h2 =
     (if error \<noteq> [] then
        do {
          h3 \<leftarrow> free_partial sentences h2;
          Some (0, Some d, h3)
        }
      else
        (case malloc (SentenceArray sentences) h2 of
           (None, h3) \<Rightarrow> Some (0, Some (d\<lparr>doc_count := 0\<rparr>), h3)
         | (Some p, h3) \<Rightarrow>
             Some (1, Some (d\<lparr>doc_count := length sentences, doc_sentences := Some p\<rparr>), h3)))"

definition udpipe_tag_structured ::
  "model option \<Rightarrow> string option \<Rightarrow> int \<Rightarrow> udpipe_doc_view option \<Rightarrow> heap \<Rightarrow>
   (int \<times> udpipe_doc_view option \<times> heap) option" where
  "udpipe_tag_structured handle utf8_text do_parse out_doc h =
     (case (handle, utf8_text, out_doc) of
        (Some m, Some text, Some d0) \<Rightarrow>
          (let (arena, h1) = new_obj (ArenaObj (new_StringArena DEFAULT_BLOCK_SIZE)) h;
               d = \<lparr>doc_sentences = None, doc_count = 0, doc_arena = Some arena\<rparr>
           in case m_new_tokenizer m [] of
                None \<Rightarrow> Some (0, Some d, h1)
              | Some reader \<Rightarrow>
                  do {
                    (sentences, error, current_success, h2) \<leftarrow>
                      sentence_loop (tag_and_parse m (do_parse \<noteq> 0)) tagged_token arena
                        (fst (reader text)) (snd (reader text)) [] h1;
                    finish_document d sentences error h2
                  })
      | _ \<Rightarrow> Some (0, out_doc, h))"

definition udpipe_tokenize_structured ::
  "model option \<Rightarrow> string option \<Rightarrow> string option \<Rightarrow> udpipe_doc_view option \<Rightarrow> heap \<Rightarrow>
   (int \<times> udpipe_doc_view option \<times> heap) option" where
  "udpipe_tokenize_structured handle utf8_text tokenizer_options out_doc h =
     (case (handle, utf8_text, out_doc) of
        (Some m, Some text, Some d0) \<Rightarrow>
          (let (arena, h1) = new_obj (ArenaObj (new_StringArena DEFAULT_BLOCK_SIZE)) h;
               d = \<lparr>doc_sentences = None, doc_count = 0, doc_arena = Some arena\<rparr>;
               opts = (case tokenizer_options of Some t \<Rightarrow> t | None \<Rightarrow> [])
           in case m_new_tokenizer m opts of
                None \<Rightarrow> Some (0, Some d, h1)
              | Some reader \<Rightarrow>
                  do {
                    (sentences, error, current_success, h2) \<leftarrow>
                      sentence_loop tokenize_only tokenized_token arena
                        (fst (reader text)) (snd (reader text)) [] h1;
                    finish_document d sentences error h2
                  })
      | _ \<Rightarrow> Some (0, out_doc, h))"

section \<open>udpipe_tag_batch\<close>

text \<open>
  One round of the worker, from the first statement after the bounds check (line 308) to
  the end of the loop body: the result is whether the round left \<^verbatim>\<open>success_flag\<close> alone
  (\<open>False\<close>: it stored \<^verbatim>\<open>false\<close>), the value it leaves in its slot \<^verbatim>\<open>results[current_index]\<close>,
  and the store.
\<close>

definition worker_round ::
  "model \<Rightarrow> bool \<Rightarrow> string \<Rightarrow> heap \<Rightarrow> (bool \<times> udpipe_doc_view \<times> heap) option" where
  "worker_round m do_parse text h =
     (let (arena, h1) = new_obj (ArenaObj (new_StringArena DEFAULT_BLOCK_SIZE)) h;
          doc = \<lparr>doc_sentences = None, doc_count = 0, doc_arena = Some arena\<rparr>
      in case m_new_tokenizer m [] of
           None \<Rightarrow> Some (False, doc, h1)
         | Some reader \<Rightarrow>
             do {
               (sentences, error, current_success, h2) \<leftarrow>
                 sentence_loop (tag_and_parse m do_parse) tagged_token arena
                   (fst (reader text)) (snd (reader text)) [] h1;
               if \<not> (current_success \<and> error = []) then
                 do {
                   h3 \<leftarrow> free_partial sentences h2;
                   Some (False, doc, h3)
                 }
               else
                 (case malloc (SentenceArray sentences) h2 of
                    (None, h3) \<Rightarrow>
                      do {
                        h4 \<leftarrow> free_partial sentences h3;
                        Some (False, doc\<lparr>doc_count := 0\<rparr>, h4)
                      }
                  | (Some p, h3) \<Rightarrow>
                      Some (True, doc\<lparr>doc_count := length sentences, doc_sentences := Some p\<rparr>, h3))
             })"

text \<open>
  The threads. Each worker is at one of the points where it touches what the threads
  share: about to read \<^verbatim>\<open>success_flag\<close> in the loop condition, about to execute
  \<^verbatim>\<open>next_index.fetch_add(1)\<close>, about to run a round on the index it claimed, or past its
  loop. A round works on its own slot and on allocations of its own; its only shared
  effect is the possible store of \<^verbatim>\<open>false\<close> to \<^verbatim>\<open>success_flag\<close>, so a round is one step. Both
  atomics have sequentially consistent accesses, so an execution is an interleaving of
  such steps.
\<close>

datatype worker = AtWhile | AtFetch | AtBody nat | Finished

record batch_state =
  success_flag :: bool
  next_index :: nat
  results :: "udpipe_doc_view list"
  threads :: "worker list"
  store :: heap

definition worker_step ::
  "model \<Rightarrow> bool \<Rightarrow> string list \<Rightarrow> nat \<Rightarrow> batch_state \<Rightarrow> batch_state option" where
  "worker_step m do_parse texts w st =
     (if length (threads st) \<le> w then Some st
      else
        (case threads st ! w of
           Finished \<Rightarrow> Some st
         | AtWhile \<Rightarrow>
             Some (st\<lparr>threads := (threads st)[w := (if success_flag st then AtFetch else Finished)]\<rparr>)
         | AtFetch \<Rightarrow>
             (let current_index = next_index st
              in Some (st\<lparr>next_index := current_index + 1,
                          threads := (threads st)
                            [w := (if length texts \<le> current_index then Finished
                                   else AtBody current_index)]\<rparr>))
         | AtBody current_index \<Rightarrow>
             (if length texts \<le> current_index \<or> length (results st) \<le> current_index then None
              else
                (case worker_round m do_parse (texts ! current_index) (store st) of
                   None \<Rightarrow> None
                 | Some (ok, doc, h') \<Rightarrow>
                     Some (st\<lparr>success_flag := (success_flag st \<and> ok),
                              results := (results st)[current_index := doc],
                              store := h',
                              threads := (threads st)[w := AtWhile]\<rparr>)))))"

text \<open>
  A schedule names the thread that takes each step. Naming a thread that does not exist
  or has finished changes nothing.
\<close>

fun run_schedule ::
  "model \<Rightarrow> bool \<Rightarrow> string list \<Rightarrow> nat list \<Rightarrow> batch_state \<Rightarrow> batch_state option" where
  "run_schedule m do_parse texts [] st = Some st"
| "run_schedule m do_parse texts (w # ws) st =
     (case worker_step m do_parse texts w st of
        None \<Rightarrow> None
      | Some st' \<Rightarrow> run_schedule m do_parse texts ws st')"

text \<open>Lines 295 to 297, with \<open>hw\<close> the value of \<^verbatim>\<open>std::thread::hardware_concurrency()\<close>.\<close>

definition thread_count :: "nat \<Rightarrow> nat \<Rightarrow> nat" where
  "thread_count hw batch_size =
     (let num_threads = (if hw = 0 then 1 else hw)
      in if num_threads > batch_size then batch_size else num_threads)"

text \<open>
  Lines 291 to 303: the value-initialised result vector, the two atomics, and the threads
  at the head of their loop.
\<close>

definition batch_start :: "nat \<Rightarrow> nat \<Rightarrow> heap \<Rightarrow> batch_state" where
  "batch_start hw batch_size h =
     \<lparr>success_flag = True, next_index = 0,
      results = replicate batch_size zero_doc,
      threads = replicate (thread_count hw batch_size) AtWhile,
      store = h\<rparr>"

text \<open>
  What a call does under a schedule: it runs into undefined behaviour, or the schedule
  ends with a worker still in its loop, so that \<^verbatim>\<open>join\<close> has not returned yet, or the call
  returns.
\<close>

datatype 'a outcome = Undefined | Unjoined | Returned 'a

text \<open>
  \<^verbatim>\<open>udpipe_tag_batch\<close>. The array \<^verbatim>\<open>utf8_texts\<close> of \<^verbatim>\<open>batch_size\<close> texts is a list;
  \<^verbatim>\<open>out_docs\<close> and \<^verbatim>\<open>out_size\<close> are the values behind the two output pointers; every pointer
  argument is \<open>None\<close> when null. The result is the return value, the values behind
  \<^verbatim>\<open>out_docs\<close> and \<^verbatim>\<open>out_size\<close>, and the store.
\<close>

definition udpipe_tag_batch ::
  "nat \<Rightarrow> nat list \<Rightarrow> model option \<Rightarrow> string list option \<Rightarrow> int \<Rightarrow>
   addr option option \<Rightarrow> nat option \<Rightarrow> heap \<Rightarrow>
   (int \<times> addr option option \<times> nat option \<times> heap) outcome" where
  "udpipe_tag_batch hw schedule handle utf8_texts do_parse out_docs out_size h =
     (case (handle, utf8_texts, out_docs, out_size) of
        (Some m, Some texts, Some od, Some os) \<Rightarrow>
          (let batch_size = length texts
           in case run_schedule m (do_parse \<noteq> 0) texts schedule (batch_start hw batch_size h) of
                None \<Rightarrow> Undefined
              | Some st \<Rightarrow>
                  if \<not> list_all (\<lambda>w. w = Finished) (threads st) then Unjoined
                  else if \<not> success_flag st then
                    (case free_docs (results st) (store st) of
                       None \<Rightarrow> Undefined
                     | Some (ds, h') \<Rightarrow> Returned (0, Some None, Some 0, h'))
                  else
                    (case malloc (DocArray (results st)) (store st) of
                       (None, h1) \<Rightarrow>
                         (case free_docs (results st) h1 of
                            None \<Rightarrow> Undefined
                          | Some (ds, h') \<Rightarrow> Returned (0, Some None, Some 0, h'))
                     | (Some p, h1) \<Rightarrow> Returned (1, Some (Some p), Some batch_size, h1)))
      | _ \<Rightarrow> Returned (0, out_docs, out_size, h))"

text \<open>
  One schedule among the many the operating system may choose: the threads run one after
  the other, each for \<open>3 * batch_size + 2\<close> steps, which is enough for one thread to take
  every text of the batch and leave its loop.
\<close>

definition sequential_schedule :: "nat \<Rightarrow> nat \<Rightarrow> nat list" where
  "sequential_schedule num_threads batch_size =
     concat (map (\<lambda>w. replicate (3 * batch_size + 2) w) [0..<num_threads])"

text \<open>
  \<^verbatim>\<open>udpipe_free_batch(docs, batch_size)\<close>: release the first \<open>batch_size\<close> documents of the
  array, then the array.
\<close>

definition udpipe_free_batch :: "addr option \<Rightarrow> nat \<Rightarrow> heap \<Rightarrow> heap option" where
  "udpipe_free_batch docs batch_size h =
     (case docs of
        None \<Rightarrow> Some h
      | Some p \<Rightarrow>
          (case lookup h p of
             Some (DocArray ds) \<Rightarrow>
               if length ds < batch_size then None
               else
                 do {
                   (ds', h1) \<leftarrow> free_docs (take batch_size ds) h;
                   free (Some p) (h1\<lparr>cells := (cells h1)[p := Some (DocArray (ds' @ drop batch_size ds))]\<rparr>)
                 }
           | _ \<Rightarrow> None))"

section \<open>Reading a document back\<close>

text \<open>
  The tokens a sentence view addresses and the sentences of a document, as a reader of
  the arrays finds them: the arrays must be live and as long as the counts say.
\<close>

definition sentence_tokens :: "heap \<Rightarrow> udpipe_sentence_view \<Rightarrow> udpipe_token list option" where
  "sentence_tokens h sv =
     (case sv_tokens sv of
        None \<Rightarrow> None
      | Some q \<Rightarrow>
          (case lookup h q of
             Some (TokenArray ts) \<Rightarrow> if sv_count sv = length ts then Some ts else None
           | _ \<Rightarrow> None))"

definition doc_views :: "heap \<Rightarrow> udpipe_doc_view \<Rightarrow> udpipe_sentence_view list option" where
  "doc_views h d =
     (case doc_sentences d of
        None \<Rightarrow> None
      | Some p \<Rightarrow>
          (case lookup h p of
             Some (SentenceArray svs) \<Rightarrow> if doc_count d = length svs then Some svs else None
           | _ \<Rightarrow> None))"

definition doc_tokens :: "heap \<Rightarrow> udpipe_doc_view \<Rightarrow> udpipe_token list list option" where
  "doc_tokens h d =
     (case doc_sentences d of
        None \<Rightarrow> None
      | Some p \<Rightarrow>
          (case lookup h p of
             Some (SentenceArray svs) \<Rightarrow>
               if doc_count d = length svs then those (map (sentence_tokens h) svs) else None
           | _ \<Rightarrow> None))"

text \<open>
  The pointer \<open>p\<close> addresses a copy of \<open>s\<close> in the arena \<open>a\<close>: it reads as \<open>s\<close>, or it is the
  static empty string that \<^verbatim>\<open>allocate\<close> falls back to.
\<close>

definition copy_of :: "heap \<Rightarrow> addr option \<Rightarrow> cptr \<Rightarrow> string \<Rightarrow> bool" where
  "copy_of h a p s = (string_at h a p = Some (if p = StaticEmpty then [] else as_c_string s))"

definition word_range :: "word \<Rightarrow> nat \<times> nat" where
  "word_range w = (case w_token_range w of Some r \<Rightarrow> r | None \<Rightarrow> (0, 0))"

text \<open>A token that carries everything of a word, and a token that carries its form only.\<close>

definition token_of_word :: "heap \<Rightarrow> addr option \<Rightarrow> udpipe_token \<Rightarrow> word \<Rightarrow> bool" where
  "token_of_word h a t w =
     (t_id t = w_id w \<and> t_head t = w_head w \<and> (t_start t, t_end t) = word_range w \<and>
      copy_of h a (t_form t) (w_form w) \<and> copy_of h a (t_lemma t) (w_lemma w) \<and>
      copy_of h a (t_upos t) (w_upostag w) \<and> copy_of h a (t_xpostag t) (w_xpostag w) \<and>
      copy_of h a (t_feats t) (w_feats w) \<and> copy_of h a (t_deprel t) (w_deprel w))"

definition token_of_form :: "heap \<Rightarrow> addr option \<Rightarrow> udpipe_token \<Rightarrow> word \<Rightarrow> bool" where
  "token_of_form h a t w =
     (t_id t = w_id w \<and> t_head t = - 1 \<and> (t_start t, t_end t) = word_range w \<and>
      copy_of h a (t_form t) (w_form w) \<and> string_at h a (t_lemma t) = Some [] \<and>
      string_at h a (t_upos t) = Some [] \<and> string_at h a (t_xpostag t) = Some [] \<and>
      string_at h a (t_feats t) = Some [] \<and> string_at h a (t_deprel t) = Some [])"

text \<open>The words of a sentence that are not structural: identifier above 0.\<close>

definition real_words :: "sentence \<Rightarrow> word list" where
  "real_words s = filter (\<lambda>w. 0 < w_id w) s"

section \<open>How the store evolves while documents are built\<close>

text \<open>
  Between two states of the store in which nothing was released: every allocation of the
  first is still there, arrays unchanged, and an arena that satisfied its invariant still
  does and reads every string as before.
\<close>

definition good_arena :: "heap \<Rightarrow> addr \<Rightarrow> bool" where
  "good_arena h a = (case lookup h a of Some (ArenaObj ar) \<Rightarrow> arena_inv ar | _ \<Rightarrow> False)"

definition cell_grows :: "obj option \<Rightarrow> obj option \<Rightarrow> bool" where
  "cell_grows c c' =
     (case (c, c') of
        (Some (ArenaObj ar), Some (ArenaObj ar')) \<Rightarrow>
          arena_inv ar \<longrightarrow> arena_inv ar' \<and> (\<forall>q x. deref ar q = Some x \<longrightarrow> deref ar' q = Some x)
      | _ \<Rightarrow> c' = c)"

definition grows :: "heap \<Rightarrow> heap \<Rightarrow> bool" where
  "grows h h' =
     (length (cells h) \<le> length (cells h') \<and>
      (\<forall>b<length (cells h). cell_grows (cells h ! b) (cells h' ! b)))"

text \<open>
  A sentence view is in order for a sentence when its token array holds one token for each
  word with identifier above 0, in the order of the words, related to the word by \<open>R\<close>.
\<close>

definition view_ok ::
  "(heap \<Rightarrow> udpipe_token \<Rightarrow> word \<Rightarrow> bool) \<Rightarrow> heap \<Rightarrow> udpipe_sentence_view \<Rightarrow> sentence \<Rightarrow> bool" where
  "view_ok R h sv s =
     (case sentence_tokens h sv of None \<Rightarrow> False | Some ts \<Rightarrow> list_all2 (R h) ts (real_words s))"

text \<open>The sentences of a session as they reach the word loop.\<close>

definition staged ::
  "(sentence \<Rightarrow> string \<Rightarrow> bool \<times> sentence \<times> string) \<Rightarrow> (sentence \<times> string) list \<Rightarrow> sentence list" where
  "staged stage script = map (\<lambda>(s, error). fst (snd (stage s error))) script"

text \<open>
  Modelled from the spec: the tagger and the parser (\<^verbatim>\<open>model::tag\<close>, \<^verbatim>\<open>model::parse\<close> of the
  UDPipe library, which is not part of the wrapper) report a failure through a non-empty
  error message (section 4.3 of the specification: the abnormal end of the loop is that
  "the tokenizer, tagger, or parser reports a non-empty error message"). For the sentences
  of a session: a stage that returns \<^verbatim>\<open>false\<close> leaves \<^verbatim>\<open>error\<close> non-empty.
\<close>

definition reports_failure ::
  "(sentence \<Rightarrow> string \<Rightarrow> bool \<times> sentence \<times> string) \<Rightarrow> (sentence \<times> string) list \<Rightarrow> bool" where
  "reports_failure stage script =
     list_all (\<lambda>(s, error). fst (stage s error) \<or> snd (snd (stage s error)) \<noteq> []) script"

text \<open>
  The document \<open>d\<close> is the result of tagging \<open>text\<close>: it reads back, and it holds the
  sentences of the text, each with the tokens of its words.
\<close>

definition tagged_doc :: "model \<Rightarrow> bool \<Rightarrow> heap \<Rightarrow> udpipe_doc_view \<Rightarrow> string \<Rightarrow> bool" where
  "tagged_doc m do_parse h d text =
     (case m_new_tokenizer m [] of
        None \<Rightarrow> False
      | Some reader \<Rightarrow>
          (case doc_tokens h d of
             None \<Rightarrow> False
           | Some tss \<Rightarrow>
               doc_count d = length (fst (reader text)) \<and>
               list_all2 (\<lambda>ts s. list_all2 (token_of_word h (doc_arena d)) ts (real_words s)) tss
                 (staged (tag_and_parse m do_parse) (fst (reader text)))))"

text \<open>No index is claimed by two threads.\<close>

definition claims_exclusive :: "batch_state \<Rightarrow> bool" where
  "claims_exclusive st =
     (\<forall>w<length (threads st). \<forall>w'<length (threads st). \<forall>i.
        threads st ! w = AtBody i \<and> threads st ! w' = AtBody i \<longrightarrow> w = w')"

text \<open>
  A slot is done when it holds the tagged document of its text and the arena of the
  document is in order. The invariant of the batch while \<^verbatim>\<open>success_flag\<close> is set: every
  index below \<^verbatim>\<open>next_index\<close> is being worked on or done; a thread that left its loop did so
  at an index beyond the batch; indices held by threads are below \<^verbatim>\<open>next_index\<close> and
  exclusive.
\<close>

definition slot_done :: "model \<Rightarrow> bool \<Rightarrow> heap \<Rightarrow> udpipe_doc_view \<Rightarrow> string \<Rightarrow> bool" where
  "slot_done m do_parse h d text =
     (tagged_doc m do_parse h d text \<and>
      (case doc_arena d of None \<Rightarrow> False | Some a \<Rightarrow> good_arena h a))"

definition batch_inv :: "model \<Rightarrow> bool \<Rightarrow> string list \<Rightarrow> batch_state \<Rightarrow> bool" where
  "batch_inv m do_parse texts st =
     (length (results st) = length texts \<and>
      claims_exclusive st \<and>
      (\<forall>w<length (threads st). \<forall>i. threads st ! w = AtBody i \<longrightarrow> i < next_index st \<and> i < length texts) \<and>
      (success_flag st \<longrightarrow>
         (\<forall>i<length texts. i < next_index st \<longrightarrow>
            AtBody i \<in> set (threads st) \<or>
            slot_done m do_parse (store st) (results st ! i) (texts ! i)) \<and>
         (Finished \<in> set (threads st) \<longrightarrow> length texts < next_index st)))"

section \<open>Example inputs\<close>

text \<open>
  A sentence as the tokenizer delivers it: the root node with identifier 0, then the
  words with their byte ranges.
\<close>

definition plain_word :: "int \<Rightarrow> string \<Rightarrow> (nat \<times> nat) option \<Rightarrow> word" where
  "plain_word i f r =
     \<lparr>w_id = i, w_head = - 1, w_form = f, w_lemma = [], w_upostag = [], w_xpostag = [],
      w_feats = [], w_deprel = [], w_token_range = r\<rparr>"

definition dogs_run :: sentence where
  "dogs_run =
     [plain_word 0 ''<root>'' None,
      plain_word 1 ''Dogs'' (Some (0, 4)),
      plain_word 2 ''run'' (Some (5, 8)),
      plain_word 3 ''.'' (Some (8, 9))]"

definition cats_sit :: sentence where
  "cats_sit =
     [plain_word 0 ''<root>'' None,
      plain_word 1 ''Cats'' (Some (10, 14)),
      plain_word 2 ''sit'' (Some (15, 18)),
      plain_word 3 ''.'' (Some (18, 19))]"

text \<open>A reader that knows two texts and finds no sentence in any other.\<close>

definition demo_reader :: "string \<Rightarrow> session" where
  "demo_reader text =
     (if text = ''Dogs run.'' then ([(dogs_run, [])], [])
      else if text = ''Dogs run. Cats sit.'' then ([(dogs_run, []), (cats_sit, [])], [])
      else ([], []))"

text \<open>A tagger that marks every word as a noun, and a parser that attaches it to the root.\<close>

definition demo_model :: model where
  "demo_model =
     \<lparr>m_new_tokenizer = (\<lambda>opts. Some demo_reader),
      m_tag = (\<lambda>s error. (True, map (\<lambda>w. w\<lparr>w_lemma := w_form w, w_upostag := ''NOUN''\<rparr>) s, [])),
      m_parse = (\<lambda>s error. (True, map (\<lambda>w. w\<lparr>w_head := 0, w_deprel := ''root''\<rparr>) s, []))\<rparr>"

text \<open>A model file without a tokenizer: \<^verbatim>\<open>new_tokenizer\<close> returns null.\<close>

definition model_without_tokenizer :: model where
  "model_without_tokenizer = demo_model\<lparr>m_new_tokenizer := (\<lambda>opts. None)\<rparr>"

definition empty_heap :: heap where
  "empty_heap = \<lparr>cells = [], outcomes = []\<rparr>"

text \<open>
  An arena that has handed out one string longer than the default block, and the same
  arena after a further short string.
\<close>

definition long_string :: string where
  "long_string = replicate 10000 CHR ''a''"

definition grown_arena :: StringArena where
  "grown_arena = fst (snd (allocate long_string (new_StringArena DEFAULT_BLOCK_SIZE) []))"

definition grown_arena_next :: StringArena where
  "grown_arena_next = fst (snd (allocate ''abc'' grown_arena []))"

text \<open>Four strings allocated one after the other in a new arena.\<close>

definition demo_alloc1 :: "cptr list \<times> StringArena \<times> bool list" where
  "demo_alloc1 = allocate_all [''Dogs''] (new_StringArena DEFAULT_BLOCK_SIZE) []"

definition demo_alloc2 :: "cptr \<times> StringArena \<times> bool list" where
  "demo_alloc2 = allocate ''run'' (fst (snd demo_alloc1)) (snd (snd demo_alloc1))"

definition demo_alloc3 :: "cptr list \<times> StringArena \<times> bool list" where
  "demo_alloc3 = allocate_all [''.'', ''NOUN''] (fst (snd demo_alloc2)) (snd (snd demo_alloc2))"

text \<open>
  A document laid out by hand: an arena at address 0, the token array of one empty
  sentence at address 1 and the sentence array at address 2.
\<close>

definition demo_doc_heap :: heap where
  "demo_doc_heap =
     \<lparr>cells = [Some (ArenaObj (new_StringArena DEFAULT_BLOCK_SIZE)),
               Some (TokenArray []),
               Some (SentenceArray [\<lparr>sv_tokens = Some 1, sv_count = 0\<rparr>])],
      outcomes = []\<rparr>"

definition demo_doc :: udpipe_doc_view where
  "demo_doc = \<lparr>doc_sentences = Some 2, doc_count = 1, doc_arena = Some 0\<rparr>"

text \<open>
  A call that tags one sentence while the third call of \<^verbatim>\<open>std::malloc\<close> (the one for the
  sentence array) fails, and two calls that succeed.
\<close>

definition demo_failed_call :: "(int \<times> udpipe_doc_view option \<times> heap) option" where
  "demo_failed_call =
     udpipe_tag_structured (Some demo_model) (Some ''Dogs run.'') 0 (Some zero_doc)
       (empty_heap\<lparr>outcomes := [True, True, False]\<rparr>)"

definition demo_tag_call :: "(int \<times> udpipe_doc_view option \<times> heap) option" where
  "demo_tag_call =
     udpipe_tag_structured (Some demo_model) (Some ''Dogs run. Cats sit.'') 1 (Some zero_doc)
       empty_heap"

definition demo_tokenize_call :: "(int \<times> udpipe_doc_view option \<times> heap) option" where
  "demo_tokenize_call =
     udpipe_tokenize_structured (Some demo_model) (Some ''Dogs run.'') None (Some zero_doc)
       empty_heap"

text \<open>
  A batch of two texts on two threads. Under the schedule thread 1 claims index 0 and
  thread 0 claims index 1, thread 0 runs its round first, then thread 1, and both leave
  their loop at their next claim.
\<close>

definition demo_batch ::
  "(int \<times> addr option option \<times> nat option \<times> heap) outcome" where
  "demo_batch =
     udpipe_tag_batch 2 [1, 1, 0, 0, 0, 1, 0, 0, 1, 1] (Some demo_model)
       (Some [''Dogs run.'', ''Dogs run. Cats sit.'']) 0 (Some None) (Some 0) empty_heap"

text \<open>
  A batch of one text in which the third call of \<^verbatim>\<open>std::malloc\<close>, the one for the sentence
  array of the document (line 372), returns null.
\<close>

definition demo_batch_no_memory ::
  "(int \<times> addr option option \<times> nat option \<times> heap) outcome" where
  "demo_batch_no_memory =
     udpipe_tag_batch 1 [0, 0, 0] (Some demo_model) (Some [''Dogs run.'']) 0 (Some None) (Some 0)
       (empty_heap\<lparr>outcomes := [True, True, False]\<rparr>)"

text \<open>
  A model whose tagger fails, with a message, on a sentence that starts with the word
  \<open>Cats\<close>, and a batch of one text whose second sentence does.
\<close>

definition picky_model :: model where
  "picky_model =
     demo_model\<lparr>m_tag := (\<lambda>s error.
        if s = cats_sit then (False, s, ''cannot tag'') else m_tag demo_model s error)\<rparr>"

definition demo_batch_tagger_fails ::
  "(int \<times> addr option option \<times> nat option \<times> heap) outcome" where
  "demo_batch_tagger_fails =
     udpipe_tag_batch 1 [0, 0, 0] (Some picky_model) (Some [''Dogs run. Cats sit.'']) 0 (Some None)
       (Some 0) empty_heap"



definition mute_model :: model where
  "mute_model = demo_model\<lparr>m_tag := (\<lambda>s error. (False, s, error))\<rparr>"


definition demo_mute_batch ::
  "(int \<times> addr option option \<times> nat option \<times> heap) outcome" where
  "demo_mute_batch =
     udpipe_tag_batch 1 [0, 0, 0, 0, 0] (Some mute_model) (Some [''Dogs run.'']) 0 (Some None)
       (Some 0) empty_heap"

section \<open>Properties of the arena\<close>

lemma arena_inv_new: "arena_inv (new_StringArena n)"
  by (simp add: arena_inv_def new_StringArena_def)

lemma c_str_append: "c_str xs = Some x \<Longrightarrow> c_str (xs @ ys) = Some x"
  by (induction xs arbitrary: x rule: c_str.induct) auto

lemma c_str_replicate_None: "c_str (replicate n None) = None"
  by (cases n) auto

lemma c_str_append_None: "c_str (xs @ replicate n None) = Some x \<Longrightarrow> c_str xs = Some x"
  by (induction xs arbitrary: x rule: c_str.induct) (auto simp: c_str_replicate_None)

text \<open>A string read in front of untouched bytes does not depend on what is written there.\<close>

lemma c_str_drop_swap:
  assumes "c_str (drop k (xs @ replicate n None)) = Some x"
  shows "c_str (drop k (xs @ ys)) = Some x"
proof (cases "k < length xs")
  case True
  with assms have "c_str (drop k xs @ replicate n None) = Some x" by simp
  then have "c_str (drop k xs) = Some x" by (rule c_str_append_None)
  then show ?thesis using True by (simp add: c_str_append)
next
  case False
  with assms show ?thesis by (simp add: c_str_replicate_None)
qed

lemma c_str_copy: "c_str (map Some (s @ [NUL]) @ rest) = Some (as_c_string s)"
  by (induction s) (auto simp: as_c_string_def)

lemma inv_block_split:
  assumes "arena_inv ar" "current_block ar = Some i"
  shows "blocks ar ! i = take (current_offset ar) (blocks ar ! i) @ replicate (block_size ar - current_offset ar) None"
    and "Suc i = length (blocks ar)" and "length (blocks ar ! i) = block_size ar"
    and "current_offset ar \<le> block_size ar"
  using assms append_take_drop_id[of "current_offset ar" "blocks ar ! i"]
  by (auto simp: arena_inv_def)

lemma align_offset_fields [simp]:
  "blocks (align_offset ar) = blocks ar"
  "current_block (align_offset ar) = current_block ar"
  "block_size (align_offset ar) = block_size ar"
  by (simp_all add: align_offset_def Let_def)

lemma align_offset_ge: "current_offset ar \<le> current_offset (align_offset ar)"
  by (simp add: align_offset_def Let_def)

lemma drop_further:
  assumes "drop a xs = replicate (n - a) (None::byte)" "a \<le> k"
  shows "drop k xs = replicate (n - k) None"
proof -
  have "drop k xs = drop (k - a) (drop a xs)" using assms(2) by simp
  also have "\<dots> = replicate (n - k) None" using assms by simp
  finally show ?thesis .
qed

lemma arena_inv_align:
  assumes "arena_inv ar" "current_offset (align_offset ar) \<le> block_size ar"
  shows "arena_inv (align_offset ar)"
proof (cases "current_block ar")
  case None
  then show ?thesis by (simp add: arena_inv_def)
next
  case (Some i)
  then have "drop (current_offset ar) (blocks ar ! i) = replicate (block_size ar - current_offset ar) None"
    using assms by (simp add: arena_inv_def)
  then have "drop (current_offset (align_offset ar)) (blocks ar ! i) =
      replicate (block_size ar - current_offset (align_offset ar)) None"
    by (rule drop_further) (rule align_offset_ge)
  then show ?thesis using assms Some by (simp add: arena_inv_def)
qed

lemma arena_inv_put:
  assumes "arena_inv ar" "current_block ar = Some i"
    and "current_offset ar + (length s + 1) \<le> block_size ar"
  shows "arena_inv (snd (put_string s i ar))"
proof -
  have d: "drop (current_offset ar) (blocks ar ! i) = replicate (block_size ar - current_offset ar) None"
    using assms by (simp add: arena_inv_def)
  have "drop (current_offset ar + (length s + 1)) (blocks ar ! i) =
      replicate (block_size ar - (current_offset ar + (length s + 1))) None"
    by (rule drop_further[OF d]) simp
  then show ?thesis using assms
    by (auto simp: arena_inv_def put_string_def memcpy_def)
qed

lemma arena_inv_grow: "arena_inv (fst (snd (grow s ar orc)))"
  by (auto simp: grow_def Let_def arena_inv_def put_string_def memcpy_def split: prod.splits)

lemma arena_inv_allocate:
  assumes "arena_inv ar"
  shows "arena_inv (fst (snd (allocate s ar orc)))"
proof (cases "current_block ar")
  case None
  then show ?thesis by (simp add: allocate_def Let_def arena_inv_grow)
next
  case (Some i)
  show ?thesis
  proof (cases "current_offset (align_offset ar) + (length s + 1) > block_size ar")
    case True
    then show ?thesis using Some by (simp add: allocate_def Let_def arena_inv_grow)
  next
    case False
    then have "arena_inv (align_offset ar)" using assms by (intro arena_inv_align) auto
    then have "arena_inv (snd (put_string s i (align_offset ar)))"
      using Some False by (intro arena_inv_put) auto
    then show ?thesis using Some False by (auto simp: allocate_def Let_def split: prod.splits)
  qed
qed

lemma take_split: "a \<le> b \<Longrightarrow> take b xs = take a xs @ take (b - a) (drop a xs)"
  by (metis le_add_diff_inverse take_add)

lemma memcpy_keeps_prefix:
  assumes "a \<le> off"
  shows "\<exists>ys. memcpy blk off src = take a blk @ ys"
  using take_split[OF assms, of blk] by (simp add: memcpy_def)

lemma deref_block_stable:
  assumes blk: "blk = take a blk @ replicate n None"
    and new: "blk' = take a blk @ ys"
    and rd: "c_str (drop off blk) = Some x"
  shows "c_str (drop off blk') = Some x"
proof -
  from rd blk have "c_str (drop off (take a blk @ replicate n None)) = Some x" by simp
  then have "c_str (drop off (take a blk @ ys)) = Some x" by (rule c_str_drop_swap)
  then show ?thesis using new by simp
qed

lemma put_string_stable:
  assumes inv: "arena_inv ar" and cur: "current_block ar = Some i"
    and rd: "deref ar q = Some x"
  shows "deref (snd (put_string s i (align_offset ar))) q = Some x"
proof (cases q)
  case CNull
  with rd show ?thesis by (simp add: deref_def)
next
  case StaticEmpty
  with rd show ?thesis by (simp add: deref_def)
next
  case (BlockPtr j off)
  with rd have j: "j < length (blocks ar)" and c: "c_str (drop off (blocks ar ! j)) = Some x"
    by (auto simp: deref_def split: if_splits)
  show ?thesis
  proof (cases "j = i")
    case False
    then show ?thesis using j c BlockPtr by (simp add: deref_def put_string_def)
  next
    case True
    obtain ys where ys: "memcpy (blocks ar ! i) (current_offset (align_offset ar)) (s @ [NUL]) =
        take (current_offset ar) (blocks ar ! i) @ ys"
      using memcpy_keeps_prefix[OF align_offset_ge] by blast
    have "c_str (drop off (memcpy (blocks ar ! i) (current_offset (align_offset ar)) (s @ [NUL]))) = Some x"
      using inv_block_split(1)[OF inv cur] ys c[unfolded True]
      by (rule deref_block_stable)
    then show ?thesis using j True BlockPtr by (simp add: deref_def put_string_def)
  qed
qed

lemma grow_stable:
  assumes rd: "deref ar q = Some x"
  shows "deref (fst (snd (grow s (align_offset ar) orc))) q = Some x"
  using assms
  by (cases q) (auto simp: deref_def grow_def Let_def put_string_def nth_append
      split: prod.splits if_splits)

text \<open>One call of \<^verbatim>\<open>allocate\<close> leaves every string readable before the call as it was.\<close>

lemma allocate_stable:
  assumes "arena_inv ar" "deref ar q = Some x"
  shows "deref (fst (snd (allocate s ar orc))) q = Some x"
proof (cases "current_block ar")
  case None
  then show ?thesis using assms(2) by (simp add: allocate_def Let_def grow_stable)
next
  case (Some i)
  then show ?thesis using assms put_string_stable[OF assms(1) Some assms(2), of s]
    by (auto simp: allocate_def Let_def grow_stable split: prod.splits)
qed

lemma allocate_blocks_grow:
  "length (blocks ar) \<le> length (blocks (fst (snd (allocate s ar orc))))"
  by (auto simp: allocate_def Let_def grow_def put_string_def split: prod.splits option.splits)

lemma put_string_reads:
  assumes "i < length (blocks ar)"
  assumes "current_offset ar \<le> length (blocks ar ! i)"
  shows "deref (snd (put_string s i ar)) (fst (put_string s i ar)) = Some (as_c_string s)"
  using assms c_str_copy[of s]
  by (simp add: put_string_def deref_def memcpy_def del: map_append)

lemma grow_reads:
  "fst (grow s a orc) = StaticEmpty \<or>
   deref (fst (snd (grow s a orc))) (fst (grow s a orc)) = Some (as_c_string s)"
proof (cases "fst (malloc_ok orc)")
  case False
  then show ?thesis by (simp add: grow_def Let_def split_beta)
next
  case True
  let ?a = "a\<lparr>blocks := blocks a @ [replicate (max (block_size a) (length s + 1)) None],
      current_block := Some (length (blocks a)), current_offset := 0,
      block_size := max (block_size a) (length s + 1)\<rparr>"
  have "deref (snd (put_string s (length (blocks a)) ?a)) (fst (put_string s (length (blocks a)) ?a))
      = Some (as_c_string s)"
    by (rule put_string_reads) simp_all
  then show ?thesis using True by (simp add: grow_def Let_def split_beta)
qed

text \<open>The pointer returned is the static empty string or reads as the string passed in.\<close>

lemma allocate_reads:
  assumes "arena_inv ar"
  shows "fst (allocate s ar orc) = StaticEmpty \<or>
     deref (fst (snd (allocate s ar orc))) (fst (allocate s ar orc)) = Some (as_c_string s)"
proof (cases "current_block ar")
  case None
  then show ?thesis using grow_reads[of s "align_offset ar"] by (simp add: allocate_def Let_def)
next
  case (Some i)
  show ?thesis
  proof (cases "current_offset (align_offset ar) + (length s + 1) > block_size ar")
    case True
    then show ?thesis using Some grow_reads[of s "align_offset ar"] by (simp add: allocate_def Let_def)
  next
    case False
    have "deref (snd (put_string s i (align_offset ar))) (fst (put_string s i (align_offset ar)))
        = Some (as_c_string s)"
      using inv_block_split(2,3)[OF assms Some] False by (intro put_string_reads) auto
    then show ?thesis using Some False by (simp add: allocate_def Let_def split_beta)
  qed
qed

lemma allocate_not_null: "fst (allocate s ar orc) \<noteq> CNull"
  by (auto simp: allocate_def Let_def grow_def put_string_def split: prod.splits option.splits)

lemma allocate_block_sizes:
  assumes "arena_inv ar" "j < length (blocks ar)"
  shows "length (blocks (fst (snd (allocate s ar orc))) ! j) = length (blocks ar ! j)"
proof (cases "current_block ar")
  case None
  then show ?thesis using assms(2)
    by (simp add: allocate_def Let_def grow_def split_beta put_string_def nth_append)
next
  case (Some i)
  show ?thesis
  proof (cases "current_offset (align_offset ar) + (length s + 1) > block_size ar")
    case True
    then show ?thesis using Some assms(2)
      by (simp add: allocate_def Let_def grow_def split_beta put_string_def nth_append)
  next
    case False
    then show ?thesis using Some assms(2) inv_block_split(3)[OF assms(1) Some]
      by (cases "j = i") (simp_all add: allocate_def Let_def split_beta put_string_def memcpy_def)
  qed
qed

lemma allocate_all_inv:
  "arena_inv ar \<Longrightarrow> arena_inv (fst (snd (allocate_all ss ar orc)))"
proof (induction ss arbitrary: ar orc)
  case Nil
  then show ?case by simp
next
  case (Cons s ss)
  have "arena_inv (fst (snd (allocate s ar orc)))" using Cons.prems by (rule arena_inv_allocate)
  from Cons.IH[OF this] show ?case by (simp add: split_beta Let_def)
qed

lemma allocate_all_stable:
  "arena_inv ar \<Longrightarrow> deref ar q = Some x \<Longrightarrow> deref (fst (snd (allocate_all ss ar orc))) q = Some x"
proof (induction ss arbitrary: ar orc)
  case Nil
  then show ?case by simp
next
  case (Cons s ss)
  have i: "arena_inv (fst (snd (allocate s ar orc)))" using Cons.prems(1) by (rule arena_inv_allocate)
  have d: "deref (fst (snd (allocate s ar orc))) q = Some x" using Cons.prems by (rule allocate_stable)
  from Cons.IH[OF i d] show ?case by (simp add: split_beta Let_def)
qed

lemma allocate_all_blocks:
  "arena_inv ar \<Longrightarrow>
   length (blocks ar) \<le> length (blocks (fst (snd (allocate_all ss ar orc)))) \<and>
   (\<forall>j<length (blocks ar). length (blocks (fst (snd (allocate_all ss ar orc))) ! j) = length (blocks ar ! j))"
proof (induction ss arbitrary: ar orc)
  case Nil
  then show ?case by simp
next
  case (Cons s ss)
  let ?r = "allocate s ar orc"
  have i: "arena_inv (fst (snd ?r))" using Cons.prems by (rule arena_inv_allocate)
  note ih = Cons.IH[OF i, of "snd (snd ?r)"]
  have l: "length (blocks ar) \<le> length (blocks (fst (snd ?r)))" by (rule allocate_blocks_grow)
  have "length (blocks (fst (snd (allocate_all ss (fst (snd ?r)) (snd (snd ?r))))) ! j) = length (blocks ar ! j)"
    if "j < length (blocks ar)" for j
    using that ih l allocate_block_sizes[OF Cons.prems that, of s orc] by auto
  then show ?case using ih l by (simp add: split_beta Let_def)
qed

lemma nth_take_drop_last:
  "0 < n \<Longrightarrow> k + n \<le> length L \<Longrightarrow> take n (drop k L) ! (n - 1) = L ! (k + (n - 1))"
  by simp

lemma bytes_swap:
  assumes rd: "take n (drop k (xs @ replicate m None)) = map Some ys" and len: "length ys = n"
  shows "take n (drop k (xs @ zs)) = map Some ys"
proof (cases "n = 0")
  case True
  with len show ?thesis by simp
next
  case False
  let ?L = "xs @ replicate m None"
  have ln: "length (take n (drop k ?L)) = n" using rd len by simp
  moreover have "length (take n (drop k ?L)) = min (length ?L - k) n"
    by (simp only: length_take length_drop)
  ultimately have bound: "k + n \<le> length ?L" using False by arith
  have "k + n \<le> length xs"
  proof (rule ccontr)
    assume "\<not> k + n \<le> length xs"
    then have ge: "length xs \<le> k + (n - 1)" using False by simp
    have "take n (drop k ?L) ! (n - 1) = ?L ! (k + (n - 1))"
      using False bound by (intro nth_take_drop_last) simp_all
    also have "\<dots> = None" using ge bound False by (simp add: nth_append)
    finally have "map Some ys ! (n - 1) = None" using rd by simp
    then show False using len False by simp
  qed
  then show ?thesis using rd by simp
qed

lemma allocate_block_prefix:
  assumes inv: "arena_inv ar" and j: "j < length (blocks ar)"
  shows "\<exists>X m zs. blocks ar ! j = X @ replicate m None \<and>
                  blocks (fst (snd (allocate s ar orc))) ! j = X @ zs"
proof -
  have same: ?thesis if "blocks (fst (snd (allocate s ar orc))) ! j = blocks ar ! j"
  proof -
    have "blocks ar ! j = blocks ar ! j @ replicate 0 None \<and>
          blocks (fst (snd (allocate s ar orc))) ! j = blocks ar ! j @ []"
      using that by simp
    then show ?thesis by blast
  qed
  have g: "blocks (fst (snd (grow s (align_offset ar) orc))) ! j = blocks ar ! j"
    using j by (simp add: grow_def Let_def split_beta put_string_def nth_append)
  show ?thesis
  proof (cases "current_block ar")
    case None
    then show ?thesis using g by (intro same) (simp add: allocate_def Let_def)
  next
    case (Some i)
    show ?thesis
    proof (cases "current_offset (align_offset ar) + (length s + 1) > block_size ar")
      case True
      then show ?thesis using Some g by (intro same) (simp add: allocate_def Let_def)
    next
      case False
      then have al: "allocate s ar orc =
          (fst (put_string s i (align_offset ar)), snd (put_string s i (align_offset ar)), orc)"
        using Some by (simp add: allocate_def Let_def split_beta)
      show ?thesis
      proof (cases "j = i")
        case False
        then show ?thesis using j al by (intro same) (simp add: put_string_def)
      next
        case True
        obtain ys where ys: "memcpy (blocks ar ! i) (current_offset (align_offset ar)) (s @ [NUL]) =
            take (current_offset ar) (blocks ar ! i) @ ys"
          using memcpy_keeps_prefix[OF align_offset_ge] by blast
        have "blocks (fst (snd (allocate s ar orc))) ! j = take (current_offset ar) (blocks ar ! i) @ ys"
          using al True j ys by (simp add: put_string_def)
        with inv_block_split(1)[OF inv Some] True show ?thesis by blast
      qed
    qed
  qed
qed

lemma allocate_bytes_stable:
  assumes inv: "arena_inv ar" and rd: "bytes_at ar q n = map Some ys" and len: "length ys = n" "0 < n"
  shows "bytes_at (fst (snd (allocate s ar orc))) q n = map Some ys"
proof (cases q)
  case CNull
  with rd len show ?thesis by (simp add: bytes_at_def)
next
  case StaticEmpty
  with rd len show ?thesis by (simp add: bytes_at_def)
next
  case (BlockPtr j off)
  with rd len have j: "j < length (blocks ar)"
    by (auto simp: bytes_at_def split: if_splits)
  with rd BlockPtr have c: "take n (drop off (blocks ar ! j)) = map Some ys" by (simp add: bytes_at_def)
  obtain X m zs where X: "blocks ar ! j = X @ replicate m None"
      "blocks (fst (snd (allocate s ar orc))) ! j = X @ zs"
    using allocate_block_prefix[OF inv j] by blast
  have "take n (drop off (X @ zs)) = map Some ys"
    using c[unfolded X(1)] len(1) by (rule bytes_swap)
  moreover have "j < length (blocks (fst (snd (allocate s ar orc))))"
    using j allocate_blocks_grow[of ar s orc] by simp
  ultimately show ?thesis using BlockPtr X(2) by (simp add: bytes_at_def)
qed

lemma put_string_bytes:
  assumes "i < length (blocks ar)"
  assumes "current_offset ar + (length s + 1) \<le> length (blocks ar ! i)"
  shows "bytes_at (snd (put_string s i ar)) (fst (put_string s i ar)) (length s + 1) = map Some (s @ [NUL])"
  using assms
  by (simp add: put_string_def bytes_at_def memcpy_def del: map_append)

lemma allocate_bytes:
  assumes "arena_inv ar"
  shows "fst (allocate s ar orc) = StaticEmpty \<or>
     bytes_at (fst (snd (allocate s ar orc))) (fst (allocate s ar orc)) (length s + 1) = map Some (s @ [NUL])"
proof -
  have g: "fst (grow s a orc) = StaticEmpty \<or>
     bytes_at (fst (snd (grow s a orc))) (fst (grow s a orc)) (length s + 1) = map Some (s @ [NUL])" for a
  proof (cases "fst (malloc_ok orc)")
    case False
    then show ?thesis by (simp add: grow_def Let_def split_beta)
  next
    case True
    let ?a = "a\<lparr>blocks := blocks a @ [replicate (max (block_size a) (length s + 1)) None],
        current_block := Some (length (blocks a)), current_offset := 0,
        block_size := max (block_size a) (length s + 1)\<rparr>"
    have "bytes_at (snd (put_string s (length (blocks a)) ?a)) (fst (put_string s (length (blocks a)) ?a))
        (length s + 1) = map Some (s @ [NUL])"
      by (rule put_string_bytes) simp_all
    then show ?thesis using True by (simp add: grow_def Let_def split_beta)
  qed
  show ?thesis
  proof (cases "current_block ar")
    case None
    then show ?thesis using g[of "align_offset ar"] by (simp add: allocate_def Let_def)
  next
    case (Some i)
    show ?thesis
    proof (cases "current_offset (align_offset ar) + (length s + 1) > block_size ar")
      case True
      then show ?thesis using Some g[of "align_offset ar"] by (simp add: allocate_def Let_def)
    next
      case False
      have "bytes_at (snd (put_string s i (align_offset ar))) (fst (put_string s i (align_offset ar)))
          (length s + 1) = map Some (s @ [NUL])"
        using inv_block_split(2,3)[OF assms Some] False by (intro put_string_bytes) auto
      then show ?thesis using Some False by (simp add: allocate_def Let_def split_beta)
    qed
  qed
qed

lemma allocate_all_bytes_stable:
  "arena_inv ar \<Longrightarrow> bytes_at ar q n = map Some ys \<Longrightarrow> length ys = n \<Longrightarrow> 0 < n \<Longrightarrow>
   bytes_at (fst (snd (allocate_all ss ar orc))) q n = map Some ys"
proof (induction ss arbitrary: ar orc)
  case Nil
  then show ?case by simp
next
  case (Cons s ss)
  have i: "arena_inv (fst (snd (allocate s ar orc)))" using Cons.prems(1) by (rule arena_inv_allocate)
  have d: "bytes_at (fst (snd (allocate s ar orc))) q n = map Some ys"
    using Cons.prems by (rule allocate_bytes_stable)
  from Cons.IH[OF i d Cons.prems(3,4)] show ?case by (simp add: split_beta Let_def)
qed

section \<open>Claims about the arena\<close>

text \<open>
  Claim C6. For every sequence of calls of \<^verbatim>\<open>StringArena::allocate\<close> on an arena made by
  the constructor: a pointer \<open>p\<close> handed out for a string \<open>s\<close> reads as \<open>s\<close> (as the empty
  string if it is the static fallback) right after the call, and reads the same after any
  number of later calls with any outcomes of \<^verbatim>\<open>malloc\<close>; the \<open>length s + 1\<close> bytes it
  addresses are the bytes copied and stay so; the arena never has fewer blocks afterwards
  and every block keeps its place and its size.
\<close>

theorem arena_strings_stable:
  assumes "allocate_all earlier (new_StringArena n) orc0 = (ps0, ar, orc)"
      and "allocate s ar orc = (p, ar1, orc1)"
      and "allocate_all later ar1 orc1 = (ps, ar2, orc2)"
  shows "deref ar1 p = Some (if p = StaticEmpty then [] else as_c_string s) \<and>
         deref ar2 p = deref ar1 p \<and>
         (p \<noteq> StaticEmpty \<longrightarrow>
            bytes_at ar1 p (length s + 1) = map Some (s @ [NUL]) \<and>
            bytes_at ar2 p (length s + 1) = map Some (s @ [NUL])) \<and>
         length (blocks ar1) \<le> length (blocks ar2) \<and>
         (\<forall>j<length (blocks ar1). length (blocks ar2 ! j) = length (blocks ar1 ! j))"
proof -
  have ar: "ar = fst (snd (allocate_all earlier (new_StringArena n) orc0))"
    and ar1: "ar1 = fst (snd (allocate s ar orc))" and p: "p = fst (allocate s ar orc)"
    and ar2: "ar2 = fst (snd (allocate_all later ar1 orc1))"
    using assms by simp_all
  have inv: "arena_inv ar" unfolding ar by (rule allocate_all_inv) (rule arena_inv_new)
  have inv1: "arena_inv ar1" unfolding ar1 using inv by (rule arena_inv_allocate)
  have r1: "deref ar1 p = Some (if p = StaticEmpty then [] else as_c_string s)"
    using allocate_reads[OF inv, of s orc] unfolding ar1 p by (auto simp: deref_def)
  have r2: "deref ar2 p = deref ar1 p"
    unfolding ar2 using allocate_all_stable[OF inv1 r1] r1 by simp
  have b1: "bytes_at ar1 p (length s + 1) = map Some (s @ [NUL])" if "p \<noteq> StaticEmpty"
    using allocate_bytes[OF inv, of s orc] that unfolding ar1 p by simp
  have b2: "bytes_at ar2 p (length s + 1) = map Some (s @ [NUL])" if "p \<noteq> StaticEmpty"
    unfolding ar2 using inv1 b1[OF that] by (rule allocate_all_bytes_stable) simp_all
  show ?thesis using r1 r2 b1 b2 allocate_all_blocks[OF inv1, of later orc1] unfolding ar2 by simp
qed

lemma demo_alloc_ptr: "fst demo_alloc2 = BlockPtr 0 8"
  by (simp add: demo_alloc2_def demo_alloc1_def allocate_def Let_def grow_def split_beta
      put_string_def memcpy_def new_StringArena_def DEFAULT_BLOCK_SIZE_def align_offset_def
      sizeof_void_ptr_def malloc_ok_def)

theorem arena_strings_stable_witness:
  "fst demo_alloc2 = BlockPtr 0 8 \<and>
   deref (fst (snd demo_alloc2)) (fst demo_alloc2) = Some ''run'' \<and>
   deref (fst (snd demo_alloc3)) (fst demo_alloc2) = Some ''run'' \<and>
   bytes_at (fst (snd demo_alloc3)) (fst demo_alloc2) (length ''run'' + 1) = map Some (''run'' @ [NUL])"
proof -
  have h1: "allocate_all [''Dogs''] (new_StringArena DEFAULT_BLOCK_SIZE) [] =
      (fst demo_alloc1, fst (snd demo_alloc1), snd (snd demo_alloc1))"
    by (simp add: demo_alloc1_def)
  have h2: "allocate ''run'' (fst (snd demo_alloc1)) (snd (snd demo_alloc1)) =
      (fst demo_alloc2, fst (snd demo_alloc2), snd (snd demo_alloc2))"
    by (simp add: demo_alloc2_def)
  have h3: "allocate_all [''.'', ''NOUN''] (fst (snd demo_alloc2)) (snd (snd demo_alloc2)) =
      (fst demo_alloc3, fst (snd demo_alloc3), snd (snd demo_alloc3))"
    by (simp add: demo_alloc3_def)
  show ?thesis
    using arena_strings_stable[OF h1 h2 h3] demo_alloc_ptr
    by (simp add: as_c_string_def NUL_def)
qed

text \<open>
  Claim C7, as amended. When the string and its terminator do not fit behind the aligned
  cursor of the current block, or there is no current block, and \<^verbatim>\<open>malloc\<close> succeeds, a new
  block of \<open>max block_size required\<close> bytes is appended and becomes the current block,
  where \<open>block_size\<close> is the member holding the size of the block allocated last (the
  constructor argument before the first block); the blocks already there are retained
  unchanged. When \<^verbatim>\<open>malloc\<close> fails, no block is added and the arena has no current block.
\<close>

theorem allocate_new_block:
  assumes "needs_block s ar"
  shows "if fst (malloc_ok orc)
         then length (blocks (fst (snd (allocate s ar orc)))) = Suc (length (blocks ar)) \<and>
              take (length (blocks ar)) (blocks (fst (snd (allocate s ar orc)))) = blocks ar \<and>
              length (blocks (fst (snd (allocate s ar orc))) ! length (blocks ar)) =
                max (block_size ar) (length s + 1) \<and>
              current_block (fst (snd (allocate s ar orc))) = Some (length (blocks ar)) \<and>
              block_size (fst (snd (allocate s ar orc))) = max (block_size ar) (length s + 1) \<and>
              fst (allocate s ar orc) = BlockPtr (length (blocks ar)) 0
         else blocks (fst (snd (allocate s ar orc))) = blocks ar \<and>
              current_block (fst (snd (allocate s ar orc))) = None \<and>
              block_size (fst (snd (allocate s ar orc))) = block_size ar \<and>
              fst (allocate s ar orc) = StaticEmpty"
proof -
  have "allocate s ar orc = grow s (align_offset ar) orc"
    using assms by (auto simp: needs_block_def allocate_def Let_def split: option.splits)
  then show ?thesis
    by (simp add: grow_def Let_def split_beta put_string_def memcpy_def)
qed

lemma grown_arena_eq:
  "block_size grown_arena = 10001 \<and> current_block grown_arena = Some 0 \<and>
   current_offset grown_arena = 10001 \<and> length (blocks grown_arena) = 1"
  by (simp add: grown_arena_def long_string_def allocate_def Let_def grow_def split_beta
      put_string_def memcpy_def new_StringArena_def DEFAULT_BLOCK_SIZE_def align_offset_def
      sizeof_void_ptr_def malloc_ok_def)

lemma needs_block_grown: "needs_block ''abc'' grown_arena"
  using grown_arena_eq by (simp add: needs_block_def align_offset_def Let_def sizeof_void_ptr_def)

theorem allocate_new_block_witness:
  "needs_block ''abc'' grown_arena \<and> fst (malloc_ok []) \<and>
   length (blocks grown_arena_next) = 2 \<and>
   length (blocks grown_arena_next ! 1) = 10001 \<and>
   current_block grown_arena_next = Some 1 \<and>
   block_size grown_arena_next = 10001"
  using allocate_new_block[OF needs_block_grown, of "[]"] grown_arena_eq needs_block_grown
  by (simp add: grown_arena_next_def malloc_ok_def)

text \<open>
  Claim C7 as stated fails: after a string of 10000 characters the member \<open>block_size\<close> is
  10001, and the block allocated for the next string that does not fit has 10001 bytes,
  not \<open>max DEFAULT_BLOCK_SIZE required = 8192\<close>.
\<close>

theorem allocate_block_size_counterexample:
  "needs_block ''abc'' grown_arena \<and>
   length (blocks grown_arena_next) = Suc (length (blocks grown_arena)) \<and>
   length (blocks grown_arena_next ! 1) \<noteq> max DEFAULT_BLOCK_SIZE (length ''abc'' + 1)"
  using allocate_new_block[OF needs_block_grown, of "[]"] grown_arena_eq needs_block_grown
  by (simp add: grown_arena_next_def malloc_ok_def DEFAULT_BLOCK_SIZE_def)

text \<open>
  Claim C8. \<^verbatim>\<open>StringArena::allocate\<close> never returns the null pointer; on an arena in a
  state the class can reach the pointer returned addresses a string; and when a new block
  is needed and \<^verbatim>\<open>malloc\<close> returns null, the result is the static empty string. The
  function has no error result.
\<close>

theorem allocate_never_null:
  "fst (allocate s ar orc) \<noteq> CNull \<and>
   (arena_inv ar \<longrightarrow> deref (fst (snd (allocate s ar orc))) (fst (allocate s ar orc)) \<noteq> None) \<and>
   (needs_block s ar \<and> \<not> fst (malloc_ok orc) \<longrightarrow>
      fst (allocate s ar orc) = StaticEmpty \<and>
      deref (fst (snd (allocate s ar orc))) (fst (allocate s ar orc)) = Some [])"
proof (intro conjI impI)
  show "fst (allocate s ar orc) \<noteq> CNull" by (rule allocate_not_null)
next
  assume "arena_inv ar"
  from allocate_reads[OF this, of s orc]
  show "deref (fst (snd (allocate s ar orc))) (fst (allocate s ar orc)) \<noteq> None"
    by (auto simp: deref_def)
next
  assume a: "needs_block s ar \<and> \<not> fst (malloc_ok orc)"
  then show p: "fst (allocate s ar orc) = StaticEmpty"
    by (auto simp: needs_block_def allocate_def Let_def grow_def split_beta split: option.splits)
  show "deref (fst (snd (allocate s ar orc))) (fst (allocate s ar orc)) = Some []"
    by (simp add: p deref_def)
qed

theorem allocate_never_null_witness:
  "arena_inv (new_StringArena DEFAULT_BLOCK_SIZE) \<and>
   needs_block ''Dogs'' (new_StringArena DEFAULT_BLOCK_SIZE) \<and> \<not> fst (malloc_ok [False]) \<and>
   fst (allocate ''Dogs'' (new_StringArena DEFAULT_BLOCK_SIZE) [False]) = StaticEmpty \<and>
   deref (fst (snd (allocate ''Dogs'' (new_StringArena DEFAULT_BLOCK_SIZE) [False]))) StaticEmpty = Some []"
proof -
  have n: "needs_block ''Dogs'' (new_StringArena DEFAULT_BLOCK_SIZE)"
    by (simp add: needs_block_def new_StringArena_def align_offset_def)
  have m: "\<not> fst (malloc_ok [False])"
    by (simp add: malloc_ok_def)
  show ?thesis
    using allocate_never_null[of "''Dogs''" "new_StringArena DEFAULT_BLOCK_SIZE" "[False]"] n m
    by (simp add: arena_inv_new deref_def)
qed

section \<open>Claims about releasing\<close>

lemma free_doc_zero: "udpipe_free_doc (Some zero_doc) h = Some (Some zero_doc, h)"
  by (simp add: udpipe_free_doc_def zero_doc_def)

lemma free_doc_result:
  assumes "udpipe_free_doc (Some d) h = Some (d', h')"
  shows "d' = Some zero_doc"
  using assms
  by (auto simp: udpipe_free_doc_def zero_doc_def split: bind_splits)

lemma free_docs_zero: "free_docs (replicate n zero_doc) h = Some (replicate n zero_doc, h)"
  by (induction n) (simp_all add: free_doc_zero the_default_def)

text \<open>
  \<^verbatim>\<open>udpipe_free_batch\<close> on an array whose slots are all zeroed releases the array and nothing
  else.
\<close>

lemma free_batch_zeroed:
  assumes "lookup h p = Some (DocArray (replicate n zero_doc))"
  shows "udpipe_free_batch (Some p) n h = Some (h\<lparr>cells := (cells h)[p := None]\<rparr>)"
proof -
  from assms have p: "p < length (cells h)" by (auto simp: lookup_def split: if_splits)
  have "free (Some p) (h\<lparr>cells := (cells h)[p := Some (DocArray (replicate n zero_doc))]\<rparr>) =
      Some (h\<lparr>cells := (cells h)[p := None]\<rparr>)"
    using p by (simp add: free_def lookup_def)
  then show ?thesis using assms by (simp add: udpipe_free_batch_def free_docs_zero)
qed

text \<open>
  Claim C9. \<^verbatim>\<open>udpipe_free_doc\<close> on a null pointer or on a zeroed document changes nothing
  and does not fault; whenever a call on any document returns, the document is zeroed
  (sentences null, count 0, arena null), and a second call on it returns with the
  document and the store unchanged.
\<close>

theorem free_doc_idempotent:
  "udpipe_free_doc None h = Some (None, h) \<and>
   udpipe_free_doc (Some zero_doc) h = Some (Some zero_doc, h) \<and>
   (\<forall>d' h'. udpipe_free_doc (Some d) h = Some (d', h') \<longrightarrow>
      d' = Some zero_doc \<and> udpipe_free_doc d' h' = Some (d', h'))"
proof (intro conjI allI impI)
  show "udpipe_free_doc None h = Some (None, h)" by (simp add: udpipe_free_doc_def)
  show "udpipe_free_doc (Some zero_doc) h = Some (Some zero_doc, h)" by (rule free_doc_zero)
next
  fix d' h' assume a: "udpipe_free_doc (Some d) h = Some (d', h')"
  then show z: "d' = Some zero_doc" by (rule free_doc_result)
  show "udpipe_free_doc d' h' = Some (d', h')" unfolding z by (rule free_doc_zero)
qed

lemma demo_doc_freed:
  "udpipe_free_doc (Some demo_doc) demo_doc_heap =
     Some (Some zero_doc, \<lparr>cells = [None, None, None], outcomes = []\<rparr>)"
  by (simp add: udpipe_free_doc_def demo_doc_def demo_doc_heap_def zero_doc_def delete_arena_def
      lookup_def read_sentences_def free_def)

theorem free_doc_idempotent_witness:
  "udpipe_free_doc (Some demo_doc) demo_doc_heap =
     Some (Some zero_doc, \<lparr>cells = [None, None, None], outcomes = []\<rparr>) \<and>
   udpipe_free_doc (Some zero_doc) \<lparr>cells = [None, None, None], outcomes = []\<rparr> =
     Some (Some zero_doc, \<lparr>cells = [None, None, None], outcomes = []\<rparr>)"
  using free_doc_idempotent[of demo_doc_heap demo_doc] demo_doc_freed
  by simp

text \<open>
  Claim C10. \<^verbatim>\<open>udpipe_tokenize_structured\<close> called with a null \<^verbatim>\<open>tokenizer_options\<close> does
  exactly what it does with the empty string: same return value, same document, same
  store.
\<close>

theorem tokenize_null_options:
  "udpipe_tokenize_structured handle utf8_text None out_doc h =
   udpipe_tokenize_structured handle utf8_text (Some []) out_doc h"
  by (simp add: udpipe_tokenize_structured_def Let_def split_beta split: option.split)

section \<open>The store only grows while a document is built\<close>

lemma cell_grows_refl: "cell_grows c c"
  by (auto simp: cell_grows_def split: option.splits obj.splits)

lemma cell_grows_arena:
  "cell_grows (Some (ArenaObj ar)) c' \<longleftrightarrow>
     (\<exists>ar'. c' = Some (ArenaObj ar') \<and>
        (arena_inv ar \<longrightarrow> arena_inv ar' \<and> (\<forall>q x. deref ar q = Some x \<longrightarrow> deref ar' q = Some x)))"
  by (cases c') (auto simp: cell_grows_def split: obj.splits)

lemma cell_grows_other:
  "(\<And>ar. c \<noteq> Some (ArenaObj ar)) \<Longrightarrow> cell_grows c c' \<longleftrightarrow> c' = c"
  by (cases c) (auto simp: cell_grows_def split: obj.splits)

lemma cell_grows_trans:
  assumes "cell_grows c c'" "cell_grows c' c''"
  shows "cell_grows c c''"
proof (cases "\<exists>ar. c = Some (ArenaObj ar)")
  case True
  then obtain ar where c: "c = Some (ArenaObj ar)" by blast
  from assms(1) obtain ar' where c': "c' = Some (ArenaObj ar')"
    and 1: "arena_inv ar \<longrightarrow> arena_inv ar' \<and> (\<forall>q x. deref ar q = Some x \<longrightarrow> deref ar' q = Some x)"
    unfolding c cell_grows_arena by blast
  from assms(2) obtain ar'' where c'': "c'' = Some (ArenaObj ar'')"
    and 2: "arena_inv ar' \<longrightarrow> arena_inv ar'' \<and> (\<forall>q x. deref ar' q = Some x \<longrightarrow> deref ar'' q = Some x)"
    unfolding c' cell_grows_arena by blast
  show ?thesis unfolding c c'' cell_grows_arena using 1 2 by blast
next
  case False
  then have n: "\<And>ar. c \<noteq> Some (ArenaObj ar)" by blast
  from assms(1) have "c' = c" using cell_grows_other[OF n] by simp
  with assms(2) show ?thesis by simp
qed

lemma grows_refl: "grows h h"
  by (simp add: grows_def cell_grows_refl)

lemma grows_trans:
  assumes "grows h h'" "grows h' h''"
  shows "grows h h''"
proof -
  have "cell_grows (cells h ! b) (cells h'' ! b)" if "b < length (cells h)" for b
  proof -
    have "cell_grows (cells h ! b) (cells h' ! b)" using assms(1) that by (simp add: grows_def)
    moreover have "cell_grows (cells h' ! b) (cells h'' ! b)" using assms that by (simp add: grows_def)
    ultimately show ?thesis by (rule cell_grows_trans)
  qed
  then show ?thesis using assms by (simp add: grows_def)
qed

lemma grows_lookup:
  assumes "grows h h'" "lookup h b = Some ob"
  shows "cell_grows (Some ob) (lookup h' b)"
  using assms by (auto simp: grows_def lookup_def split: if_splits)

lemma grows_arena:
  assumes "grows h h'" "lookup h a = Some (ArenaObj ar)" "arena_inv ar"
  shows "\<exists>ar'. lookup h' a = Some (ArenaObj ar') \<and> arena_inv ar' \<and>
           (\<forall>q x. deref ar q = Some x \<longrightarrow> deref ar' q = Some x)"
  using grows_lookup[OF assms(1,2)] assms(3) unfolding cell_grows_arena by blast

lemma grows_good:
  assumes "grows h h'" "good_arena h a"
  shows "good_arena h' a"
proof -
  from assms(2) obtain ar where ar: "lookup h a = Some (ArenaObj ar)" "arena_inv ar"
    by (auto simp: good_arena_def split: option.splits obj.splits)
  from grows_arena[OF assms(1) ar] show ?thesis by (auto simp: good_arena_def)
qed

lemma grows_tokens:
  assumes "grows h h'" "lookup h q = Some (TokenArray ts)"
  shows "lookup h' q = Some (TokenArray ts)"
  using grows_lookup[OF assms] by (simp add: cell_grows_other)

lemma grows_sentences:
  assumes "grows h h'" "lookup h q = Some (SentenceArray svs)"
  shows "lookup h' q = Some (SentenceArray svs)"
  using grows_lookup[OF assms] by (simp add: cell_grows_other)

lemma grows_string:
  assumes "grows h h'" "good_arena h a" "string_at h (Some a) p = Some x"
  shows "string_at h' (Some a) p = Some x"
proof -
  from assms(2) obtain ar where ar: "lookup h a = Some (ArenaObj ar)" "arena_inv ar"
    by (auto simp: good_arena_def split: option.splits obj.splits)
  from grows_arena[OF assms(1) ar] obtain ar' where
    ar': "lookup h' a = Some (ArenaObj ar')" "\<forall>q x. deref ar q = Some x \<longrightarrow> deref ar' q = Some x"
    by blast
  then show ?thesis using assms(3) ar by (simp add: string_at_def)
qed

lemma grows_copy: "grows h h' \<Longrightarrow> good_arena h a \<Longrightarrow> copy_of h (Some a) p s \<Longrightarrow> copy_of h' (Some a) p s"
  by (simp add: copy_of_def grows_string)

lemma grows_token_of_word:
  "grows h h' \<Longrightarrow> good_arena h a \<Longrightarrow> token_of_word h (Some a) t w \<Longrightarrow> token_of_word h' (Some a) t w"
  by (simp add: token_of_word_def grows_copy)

lemma grows_token_of_form:
  "grows h h' \<Longrightarrow> good_arena h a \<Longrightarrow> token_of_form h (Some a) t w \<Longrightarrow> token_of_form h' (Some a) t w"
  by (simp add: token_of_form_def grows_copy grows_string)

lemma new_obj_grows: "grows h (snd (new_obj ob h))"
  by (simp add: grows_def new_obj_def nth_append cell_grows_refl)

lemma malloc_grows: "grows h (snd (malloc ob h))"
  by (simp add: grows_def malloc_def Let_def split_beta nth_append cell_grows_refl)

lemma malloc_Some:
  assumes "malloc ob h = (Some q, h')"
  shows "q = length (cells h)" and "lookup h' q = Some ob"
    and "length (cells h') = Suc (length (cells h))"
  using assms by (auto simp: malloc_def Let_def split_beta lookup_def split: if_splits)

lemma arena_allocate_grows:
  assumes "arena_allocate a s h = Some (p, h')"
  shows "grows h h'"
proof -
  from assms obtain ar where ar: "lookup h a = Some (ArenaObj ar)"
    by (auto simp: arena_allocate_def split: option.splits obj.splits)
  then have a: "a < length (cells h)" "cells h ! a = Some (ArenaObj ar)"
    by (auto simp: lookup_def split: if_splits)
  let ?ar' = "fst (snd (allocate s ar (outcomes h)))"
  have h': "cells h' = (cells h)[a := Some (ArenaObj ?ar')]"
    using assms ar by (auto simp: arena_allocate_def split_beta)
  have "cell_grows (cells h ! b) (cells h' ! b)" if "b < length (cells h)" for b
  proof (cases "b = a")
    case True
    then show ?thesis using a h' allocate_stable[of ar _ _ s "outcomes h"] arena_inv_allocate[of ar s "outcomes h"]
      by (simp add: cell_grows_arena)
  next
    case False
    then show ?thesis using h' by (simp add: cell_grows_refl)
  qed
  then show ?thesis using h' by (simp add: grows_def)
qed

lemma arena_allocate_copy:
  assumes "good_arena h a" "arena_allocate a s h = Some (p, h')"
  shows "copy_of h' (Some a) p s"
proof -
  from assms(1) obtain ar where ar: "lookup h a = Some (ArenaObj ar)" "arena_inv ar"
    by (auto simp: good_arena_def split: option.splits obj.splits)
  then have a: "a < length (cells h)" by (auto simp: lookup_def split: if_splits)
  have p: "p = fst (allocate s ar (outcomes h))"
    and h': "lookup h' a = Some (ArenaObj (fst (snd (allocate s ar (outcomes h)))))"
    using assms(2) ar a by (auto simp: arena_allocate_def split_beta lookup_def)
  show ?thesis using allocate_reads[OF ar(2), of s "outcomes h"] h' p
    by (auto simp: copy_of_def string_at_def deref_def)
qed

lemma alloc_step:
  assumes "good_arena h a" "arena_allocate a s h = Some (p, h')"
  shows "grows h h'" "good_arena h' a" "copy_of h' (Some a) p s"
proof -
  show g: "grows h h'" using assms(2) by (rule arena_allocate_grows)
  show "good_arena h' a" using g assms(1) by (rule grows_good)
  show "copy_of h' (Some a) p s" using assms by (rule arena_allocate_copy)
qed

lemma copy_of_empty: "copy_of h a p [] \<longleftrightarrow> string_at h a p = Some []"
  by (simp add: copy_of_def as_c_string_def)

lemma six_allocations:
  assumes g0: "good_arena h a"
    and a1: "arena_allocate a s1 h = Some (p1, h1)"
    and a2: "arena_allocate a s2 h1 = Some (p2, h2)"
    and a3: "arena_allocate a s3 h2 = Some (p3, h3)"
    and a4: "arena_allocate a s4 h3 = Some (p4, h4)"
    and a5: "arena_allocate a s5 h4 = Some (p5, h5)"
    and a6: "arena_allocate a s6 h5 = Some (p6, h6)"
  shows "grows h h6 \<and> copy_of h6 (Some a) p1 s1 \<and> copy_of h6 (Some a) p2 s2 \<and>
     copy_of h6 (Some a) p3 s3 \<and> copy_of h6 (Some a) p4 s4 \<and> copy_of h6 (Some a) p5 s5 \<and>
     copy_of h6 (Some a) p6 s6"
proof -
  note s1 = alloc_step[OF g0 a1]
  note s2 = alloc_step[OF s1(2) a2]
  note s3 = alloc_step[OF s2(2) a3]
  note s4 = alloc_step[OF s3(2) a4]
  note s5 = alloc_step[OF s4(2) a5]
  note s6 = alloc_step[OF s5(2) a6]
  have g56: "grows h5 h6" by (rule s6(1))
  have g46: "grows h4 h6" using s5(1) g56 by (rule grows_trans)
  have g36: "grows h3 h6" using s4(1) g46 by (rule grows_trans)
  have g26: "grows h2 h6" using s3(1) g36 by (rule grows_trans)
  have g16: "grows h1 h6" using s2(1) g26 by (rule grows_trans)
  have g06: "grows h h6" using s1(1) g16 by (rule grows_trans)
  show ?thesis
    using g06 grows_copy[OF g16 s1(2) s1(3)] grows_copy[OF g26 s2(2) s2(3)]
      grows_copy[OF g36 s3(2) s3(3)] grows_copy[OF g46 s4(2) s4(3)]
      grows_copy[OF g56 s5(2) s5(3)] s6(3)
    by simp
qed

lemma tagged_token_ok:
  assumes "good_arena h a" "tagged_token a w h = Some (t, h')"
  shows "grows h h' \<and> token_of_word h' (Some a) t w"
proof -
  from assms(2) obtain p1 h1 p2 h2 p3 h3 p4 h4 p5 h5 p6 where
    a: "arena_allocate a (w_form w) h = Some (p1, h1)"
       "arena_allocate a (w_lemma w) h1 = Some (p2, h2)"
       "arena_allocate a (w_upostag w) h2 = Some (p3, h3)"
       "arena_allocate a (w_xpostag w) h3 = Some (p4, h4)"
       "arena_allocate a (w_feats w) h4 = Some (p5, h5)"
       "arena_allocate a (w_deprel w) h5 = Some (p6, h')"
    and t: "t = \<lparr>t_id = w_id w, t_head = w_head w,
               t_form = p1, t_lemma = p2, t_upos = p3, t_xpostag = p4,
               t_feats = p5, t_deprel = p6,
               t_start = (case w_token_range w of Some (start, end') \<Rightarrow> start | None \<Rightarrow> 0),
               t_end = (case w_token_range w of Some (start, end') \<Rightarrow> end' | None \<Rightarrow> 0)\<rparr>"
    by (auto simp: tagged_token_def split: bind_splits)
  from six_allocations[OF assms(1) a] show ?thesis
    by (simp add: t token_of_word_def word_range_def split: option.splits)
qed

lemma tokenized_token_ok:
  assumes "good_arena h a" "tokenized_token a w h = Some (t, h')"
  shows "grows h h' \<and> token_of_form h' (Some a) t w"
proof -
  from assms(2) obtain p1 h1 p2 h2 p3 h3 p4 h4 p5 h5 p6 where
    a: "arena_allocate a (w_form w) h = Some (p1, h1)"
       "arena_allocate a [] h1 = Some (p2, h2)"
       "arena_allocate a [] h2 = Some (p3, h3)"
       "arena_allocate a [] h3 = Some (p4, h4)"
       "arena_allocate a [] h4 = Some (p5, h5)"
       "arena_allocate a [] h5 = Some (p6, h')"
    and t: "t = \<lparr>t_id = w_id w, t_head = - 1,
               t_form = p1, t_lemma = p2, t_upos = p3, t_xpostag = p4,
               t_feats = p5, t_deprel = p6,
               t_start = (case w_token_range w of Some (start, end') \<Rightarrow> start | None \<Rightarrow> 0),
               t_end = (case w_token_range w of Some (start, end') \<Rightarrow> end' | None \<Rightarrow> 0)\<rparr>"
    by (auto simp: tokenized_token_def arena_allocate_empty_def split: bind_splits)
  from six_allocations[OF assms(1) a] show ?thesis
    by (simp add: t token_of_form_def word_range_def copy_of_empty split: option.splits)
qed

lemma word_loop_ok:
  assumes mk: "\<And>h w t h'. good_arena h a \<Longrightarrow> mk a w h = Some (t, h') \<Longrightarrow> grows h h' \<and> R h' t w"
    and st: "\<And>h h' t w. grows h h' \<Longrightarrow> good_arena h a \<Longrightarrow> R h t w \<Longrightarrow> R h' t w"
  shows "good_arena h a \<Longrightarrow> word_loop mk a ws h = Some (ts, h') \<Longrightarrow>
     grows h h' \<and> list_all2 (R h') ts (real_words ws)"
proof (induction ws arbitrary: h ts)
  case Nil
  then show ?case by (simp add: real_words_def grows_refl)
next
  case (Cons w ws)
  show ?case
  proof (cases "w_id w \<le> 0")
    case True
    then show ?thesis using Cons by (simp add: real_words_def)
  next
    case False
    with Cons.prems(2) obtain t h1 toks where
      m: "mk a w h = Some (t, h1)" and r: "word_loop mk a ws h1 = Some (toks, h')"
      and ts: "ts = t # toks"
      by (auto split: bind_splits)
    from mk[OF Cons.prems(1) m] have g1: "grows h h1" and R1: "R h1 t w" by simp_all
    have good1: "good_arena h1 a" using g1 Cons.prems(1) by (rule grows_good)
    from Cons.IH[OF good1 r] have g2: "grows h1 h'" and l: "list_all2 (R h') toks (real_words ws)"
      by simp_all
    have "R h' t w" using g2 good1 R1 by (rule st)
    then show ?thesis using l ts False grows_trans[OF g1 g2] by (simp add: real_words_def)
  qed
qed

section \<open>The sentence loop\<close>

lemma sentence_tokens_grows:
  assumes "grows h h'" "sentence_tokens h sv = Some ts"
  shows "sentence_tokens h' sv = Some ts"
proof -
  from assms(2) obtain q where q: "sv_tokens sv = Some q" "lookup h q = Some (TokenArray ts)"
      "sv_count sv = length ts"
    by (auto simp: sentence_tokens_def split: option.splits obj.splits if_splits)
  from grows_tokens[OF assms(1) q(2)] q show ?thesis by (simp add: sentence_tokens_def)
qed

lemma view_ok_grows:
  assumes st: "\<And>h h' t w. grows h h' \<Longrightarrow> good_arena h a \<Longrightarrow> R h t w \<Longrightarrow> R h' t w"
    and g: "grows h h'" and good: "good_arena h a" and v: "view_ok R h sv s"
  shows "view_ok R h' sv s"
proof -
  from v obtain ts where ts: "sentence_tokens h sv = Some ts" "list_all2 (R h) ts (real_words s)"
    by (auto simp: view_ok_def split: option.splits)
  have "list_all2 (R h') ts (real_words s)"
    using ts(2) st[OF g good] by (rule list_all2_mono)
  then show ?thesis using sentence_tokens_grows[OF g ts(1)] by (simp add: view_ok_def)
qed

lemma views_ok_grows:
  assumes st: "\<And>h h' t w. grows h h' \<Longrightarrow> good_arena h a \<Longrightarrow> R h t w \<Longrightarrow> R h' t w"
    and g: "grows h h'" and good: "good_arena h a" and v: "list_all2 (view_ok R h) svs ss"
  shows "list_all2 (view_ok R h') svs ss"
  using v view_ok_grows[OF st g good] by (rule list_all2_mono)

lemma sentence_loop_step_cases:
  assumes "sentence_loop stage mk a ((s, e) # script) final sents h = Some r"
  obtains
    (err) "e \<noteq> []" "r = (sents, e, False, h)"
  | (stop) "e = []" "\<not> fst (stage s e)" "r = (sents, snd (snd (stage s e)), False, h)"
  | (nomem) toks h1 h2 where "e = []" "fst (stage s e)"
      "word_loop mk a (fst (snd (stage s e))) h = Some (toks, h1)"
      "malloc (TokenArray toks) h1 = (None, h2)" "r = (sents, ''alloc failure'', False, h2)"
  | (continue) toks h1 q h2 where "e = []" "fst (stage s e)"
      "word_loop mk a (fst (snd (stage s e))) h = Some (toks, h1)"
      "malloc (TokenArray toks) h1 = (Some q, h2)"
      "sentence_loop stage mk a script final
         (sents @ [\<lparr>sv_tokens = Some q, sv_count = length toks\<rparr>]) h2 = Some r"
proof (cases "e \<noteq> []")
  case True
  with assms have "r = (sents, e, False, h)" by auto
  with True show ?thesis by (rule err)
next
  case e: False
  obtain ok s' e' where stg: "stage s e = (ok, s', e')" by (cases "stage s e")
  show ?thesis
  proof (cases ok)
    case False
    with assms e stg have "r = (sents, snd (snd (stage s e)), False, h)" by auto
    with e False stg show ?thesis by (intro stop) simp_all
  next
    case True
    with assms e stg obtain toks h1 where
      wl: "word_loop mk a s' h = Some (toks, h1)"
      and rest: "(case malloc (TokenArray toks) h1 of
                    (None, h2) \<Rightarrow> Some (sents, ''alloc failure'', False, h2)
                  | (Some q, h2) \<Rightarrow>
                      sentence_loop stage mk a script final
                        (sents @ [\<lparr>sv_tokens = Some q, sv_count = length toks\<rparr>]) h2)
                 = Some r"
      by (auto split: bind_splits)
    obtain p h2 where m: "malloc (TokenArray toks) h1 = (p, h2)" by (cases "malloc (TokenArray toks) h1")
    show ?thesis
    proof (cases p)
      case None
      with rest m have "r = (sents, ''alloc failure'', False, h2)" by simp
      with e True stg wl m None show ?thesis by (intro nomem[of toks h1 h2]) simp_all
    next
      case (Some q)
      with rest m have "sentence_loop stage mk a script final
         (sents @ [\<lparr>sv_tokens = Some q, sv_count = length toks\<rparr>]) h2 = Some r" by simp
      with e True stg wl m Some show ?thesis by (intro continue[of toks h1 q h2]) simp_all
    qed
  qed
qed

lemma sentence_loop_grows:
  assumes mk: "\<And>h w t h'. good_arena h a \<Longrightarrow> mk a w h = Some (t, h') \<Longrightarrow> grows h h' \<and> R h' t w"
    and st: "\<And>h h' t w. grows h h' \<Longrightarrow> good_arena h a \<Longrightarrow> R h t w \<Longrightarrow> R h' t w"
  shows "good_arena h a \<Longrightarrow>
     sentence_loop stage mk a script final sents h = Some (sents', err, cs, h') \<Longrightarrow> grows h h'"
proof (induction script arbitrary: sents h)
  case Nil
  then show ?case by (simp add: grows_refl)
next
  case (Cons x script)
  obtain s e where x: "x = (s, e)" by (cases x)
  from Cons.prems(2)[unfolded x] show ?case
  proof (cases rule: sentence_loop_step_cases)
    case err
    then show ?thesis by (simp add: grows_refl)
  next
    case stop
    then show ?thesis by (simp add: grows_refl)
  next
    case (nomem toks h1 h2)
    from word_loop_ok[where R=R, OF mk st Cons.prems(1) nomem(3)] have g1: "grows h h1" by simp
    have "grows h1 h2" using malloc_grows[of h1 "TokenArray toks"] nomem(4) by simp
    with g1 have "grows h h2" by (rule grows_trans)
    then show ?thesis using nomem(5) by simp
  next
    case (continue toks h1 q h2)
    from word_loop_ok[where R=R, OF mk st Cons.prems(1) continue(3)] have g1: "grows h h1" by simp
    have "grows h1 h2" using malloc_grows[of h1 "TokenArray toks"] continue(4) by simp
    with g1 have g02: "grows h h2" by (rule grows_trans)
    have "good_arena h2 a" using g02 Cons.prems(1) by (rule grows_good)
    from Cons.IH[OF this continue(5)] have "grows h2 h'" .
    with g02 show ?thesis by (rule grows_trans)
  qed
qed

lemma sentence_loop_complete:
  assumes mk: "\<And>h w t h'. good_arena h a \<Longrightarrow> mk a w h = Some (t, h') \<Longrightarrow> grows h h' \<and> R h' t w"
    and st: "\<And>h h' t w. grows h h' \<Longrightarrow> good_arena h a \<Longrightarrow> R h t w \<Longrightarrow> R h' t w"
  shows "good_arena h a \<Longrightarrow> list_all2 (view_ok R h) sents done \<Longrightarrow>
     sentence_loop stage mk a script final sents h = Some (sents', err, True, h') \<Longrightarrow>
     err = final \<and> list_all2 (view_ok R h') sents' (done @ staged stage script)"
proof (induction script arbitrary: sents h "done")
  case Nil
  then show ?case by (simp add: staged_def)
next
  case (Cons x script)
  obtain s e where x: "x = (s, e)" by (cases x)
  from Cons.prems(3)[unfolded x] show ?case
  proof (cases rule: sentence_loop_step_cases)
    case err
    then show ?thesis by simp
  next
    case stop
    then show ?thesis by simp
  next
    case (nomem toks h1 h2)
    then show ?thesis by simp
  next
    case (continue toks h1 q h2)
    let ?s' = "fst (snd (stage s e))"
    from word_loop_ok[where R=R, OF mk st Cons.prems(1) continue(3)]
    have g1: "grows h h1" and l1: "list_all2 (R h1) toks (real_words ?s')" by simp_all
    have good1: "good_arena h1 a" using g1 Cons.prems(1) by (rule grows_good)
    have g2: "grows h1 h2" using malloc_grows[of h1 "TokenArray toks"] continue(4) by simp
    have g02: "grows h h2" using g1 g2 by (rule grows_trans)
    have good2: "good_arena h2 a" using g02 Cons.prems(1) by (rule grows_good)
    let ?sv = "\<lparr>sv_tokens = Some q, sv_count = length toks\<rparr>"
    have "sentence_tokens h2 ?sv = Some toks"
      using malloc_Some(2)[OF continue(4)] by (simp add: sentence_tokens_def)
    moreover have "list_all2 (R h2) toks (real_words ?s')"
      using l1 st[OF g2 good1] by (rule list_all2_mono)
    ultimately have new: "view_ok R h2 ?sv ?s'" by (simp add: view_ok_def)
    have old: "list_all2 (view_ok R h2) sents done"
      using st g02 Cons.prems(1,2) by (rule views_ok_grows)
    have "list_all2 (view_ok R h2) (sents @ [?sv]) (done @ [?s'])"
      using old new by (simp add: list_all2_appendI)
    from Cons.IH[OF good2 this continue(5)]
    show ?thesis using x by (simp add: staged_def)
  qed
qed

lemma sentence_loop_break:
  "reports_failure stage script \<Longrightarrow>
   sentence_loop stage mk a script final sents h = Some (sents', err, False, h') \<Longrightarrow> err \<noteq> []"
proof (induction script arbitrary: sents h)
  case Nil
  then show ?case by simp
next
  case (Cons x script)
  obtain s e where x: "x = (s, e)" by (cases x)
  have rf: "reports_failure stage script" and this_one: "fst (stage s e) \<or> snd (snd (stage s e)) \<noteq> []"
    using Cons.prems(1) x by (simp_all add: reports_failure_def)
  from Cons.prems(2)[unfolded x] show ?case
  proof (cases rule: sentence_loop_step_cases)
    case err
    then show ?thesis by simp
  next
    case stop
    then show ?thesis using this_one by simp
  next
    case (nomem toks h1 h2)
    then show ?thesis by simp
  next
    case (continue toks h1 q h2)
    from Cons.IH[OF rf continue(5)] show ?thesis .
  qed
qed

lemma views_to_tokens:
  "list_all2 (view_ok R h) svs ss \<Longrightarrow>
   \<exists>tss. those (map (sentence_tokens h) svs) = Some tss \<and>
         list_all2 (\<lambda>ts s. list_all2 (R h) ts (real_words s)) tss ss"
proof (induction rule: list_all2_induct)
  case Nil
  then show ?case by simp
next
  case (Cons sv svs s ss)
  then show ?case by (auto simp: view_ok_def split: option.splits)
qed

lemma free_lookup:
  assumes "free (Some q) h = Some h'"
  shows "lookup h' p = (if p = q then None else lookup h p)"
  using assms
  by (auto simp: free_def lookup_def split: option.splits obj.splits if_splits)

lemma free_tokens_lookup:
  "free_tokens svs h = Some h' \<Longrightarrow> lookup h' p = lookup h p \<or> lookup h' p = None"
proof (induction svs arbitrary: h)
  case Nil
  then show ?case by simp
next
  case (Cons sv svs)
  show ?case
  proof (cases "sv_tokens sv")
    case None
    then show ?thesis using Cons by simp
  next
    case (Some q)
    with Cons.prems obtain h1 where f: "free (Some q) h = Some h1" and r: "free_tokens svs h1 = Some h'"
      by (auto split: option.splits)
    from Cons.IH[OF r] free_lookup[OF f, of p] show ?thesis by (auto split: if_splits)
  qed
qed

text \<open>
  The cleanup of a partial result returns only when the vector is empty, and then does
  nothing: with an element in the vector it passes the storage of the vector to
  \<^verbatim>\<open>std::free\<close>.
\<close>

lemma free_partial_Some:
  assumes "free_partial sents h = Some h'"
  shows "sents = [] \<and> h' = h"
proof (cases "sents = []")
  case True
  then show ?thesis using assms
    by (simp add: free_partial_def vector_data_def udpipe_free_doc_def)
next
  case False
  let ?p = "length (cells h)"
  let ?h1 = "h\<lparr>cells := cells h @ [Some (VectorStorage sents)]\<rparr>"
  have l: "lookup ?h1 ?p = Some (VectorStorage sents)" by (simp add: lookup_def)
  have rd: "read_sentences ?p (length sents) ?h1 = Some sents"
    using l by (simp add: read_sentences_def)
  have "free (Some ?p) h2 = None" if "free_tokens sents ?h1 = Some h2" for h2
    using free_tokens_lookup[OF that, of ?p] l by (auto simp: free_def)
  then have "free_partial sents h = None"
    using False rd
    by (cases "free_tokens sents ?h1")
       (simp_all add: free_partial_def vector_data_def new_obj_def udpipe_free_doc_def)
  with assms show ?thesis by simp
qed

lemma free_partial_None: "sents \<noteq> [] \<Longrightarrow> free_partial sents h = None"
  using free_partial_Some[of sents h] by (cases "free_partial sents h") auto

lemma new_arena_good:
  "good_arena (snd (new_obj (ArenaObj (new_StringArena n)) h)) (length (cells h))"
  by (simp add: good_arena_def new_obj_def lookup_def arena_inv_new)

lemma malloc_None_grows: "malloc ob h = (p, h') \<Longrightarrow> grows h h'"
  using malloc_grows[of h ob] by simp

text \<open>What the code after the loop returns.\<close>

lemma finish_document_cases:
  assumes "finish_document d sentences error h2 = Some (r, out, h')"
  obtains
    (failed) "r = 0" "out = Some (d\<lparr>doc_count := 0\<rparr>) \<or> out = Some d" "grows h2 h'"
  | (succeeded) p where "error = []"
      "malloc (SentenceArray sentences) h2 = (Some p, h')"
      "r = 1" "out = Some (d\<lparr>doc_count := length sentences, doc_sentences := Some p\<rparr>)"
proof (cases "error \<noteq> []")
  case True
  with assms obtain h3 where f: "free_partial sentences h2 = Some h3" and e: "r = 0" "out = Some d" "h' = h3"
    by (auto simp: finish_document_def split: bind_splits)
  from free_partial_Some[OF f] e have "grows h2 h'" by (simp add: grows_refl)
  with e show ?thesis by (intro failed) simp_all
next
  case False
  obtain p h3 where m: "malloc (SentenceArray sentences) h2 = (p, h3)"
    by (cases "malloc (SentenceArray sentences) h2")
  show ?thesis
  proof (cases p)
    case None
    with assms False m have "r = 0" "out = Some (d\<lparr>doc_count := 0\<rparr>)" "h' = h3"
      by (simp_all add: finish_document_def)
    with malloc_None_grows[OF m] show ?thesis by (intro failed) simp_all
  next
    case (Some q)
    with assms False m have "r = 1" "out = Some (d\<lparr>doc_count := length sentences, doc_sentences := Some q\<rparr>)"
        "h' = h3" by (simp_all add: finish_document_def)
    with m Some False show ?thesis by (intro succeeded[of q]) simp_all
  qed
qed

section \<open>The structured functions\<close>

lemma doc_tokens_views:
  "doc_tokens h d = (case doc_views h d of None \<Rightarrow> None | Some svs \<Rightarrow> those (map (sentence_tokens h) svs))"
  by (simp add: doc_tokens_def doc_views_def split: option.splits obj.splits)

lemma those_map_Some:
  "those (map f xs) = Some ys \<Longrightarrow> length ys = length xs \<and> (\<forall>i<length xs. f (xs ! i) = Some (ys ! i))"
proof (induction xs arbitrary: ys)
  case Nil
  then show ?case by simp
next
  case (Cons x xs)
  then obtain y ys' where y: "f x = Some y" "those (map f xs) = Some ys'" "ys = y # ys'"
    by (auto split: option.splits)
  from Cons.IH[OF y(2)] y show ?case by (auto simp: nth_Cons split: nat.splits)
qed

lemma sentence_tokens_count: "sentence_tokens h sv = Some ts \<Longrightarrow> sv_count sv = length ts"
  by (auto simp: sentence_tokens_def split: option.splits obj.splits if_splits)

lemma those_tokens_counts:
  assumes "those (map (sentence_tokens h) svs) = Some tss"
  shows "map sv_count svs = map length tss"
proof (rule nth_equalityI)
  show "length (map sv_count svs) = length (map length tss)"
    using those_map_Some[OF assms] by simp
next
  fix i assume "i < length (map sv_count svs)"
  then have i: "i < length svs" by simp
  with those_map_Some[OF assms] have "sentence_tokens h (svs ! i) = Some (tss ! i)" by blast
  then have "sv_count (svs ! i) = length (tss ! i)" by (rule sentence_tokens_count)
  then show "map sv_count svs ! i = map length tss ! i"
    using i those_map_Some[OF assms] by simp
qed

text \<open>A freshly allocated sentence array over views that are in order reads back as a document.\<close>

lemma built_doc_reads:
  assumes st: "\<And>h h' t w. grows h h' \<Longrightarrow> good_arena h a \<Longrightarrow> R h t w \<Longrightarrow> R h' t w"
    and good: "good_arena h2 a"
    and views: "list_all2 (view_ok R h2) sentences ss"
    and m: "malloc (SentenceArray sentences) h2 = (Some p, h')"
    and d: "d = \<lparr>doc_sentences = Some p, doc_count = length sentences, doc_arena = Some a\<rparr>"
  shows "\<exists>tss. doc_views h' d = Some sentences \<and> doc_tokens h' d = Some tss \<and>
           map sv_count sentences = map length tss \<and>
           length tss = length ss \<and>
           list_all2 (\<lambda>ts s. list_all2 (R h') ts (real_words s)) tss ss"
proof -
  have g: "grows h2 h'" using m by (rule malloc_None_grows)
  have v': "list_all2 (view_ok R h') sentences ss" using st g good views by (rule views_ok_grows)
  from views_to_tokens[OF v'] obtain tss where
    tss: "those (map (sentence_tokens h') sentences) = Some tss"
      "list_all2 (\<lambda>ts s. list_all2 (R h') ts (real_words s)) tss ss" by blast
  have dv: "doc_views h' d = Some sentences"
    using malloc_Some(2)[OF m] by (simp add: doc_views_def d)
  then have "doc_tokens h' d = Some tss" using tss(1) by (simp add: doc_tokens_views)
  moreover have "length tss = length ss" using tss(2) by (rule list_all2_lengthD)
  ultimately show ?thesis using dv tss those_tokens_counts[OF tss(1)] by blast
qed

lemma free_failed_doc:
  assumes "good_arena h a"
  shows "udpipe_free_doc (Some \<lparr>doc_sentences = None, doc_count = 0, doc_arena = Some a\<rparr>) h =
     Some (Some zero_doc, h\<lparr>cells := (cells h)[a := None]\<rparr>)"
  using assms
  by (auto simp: udpipe_free_doc_def good_arena_def delete_arena_def zero_doc_def
      split: option.splits obj.splits)

lemma tag_structured_cases:
  assumes "udpipe_tag_structured (Some m) (Some text) do_parse (Some d0) h = Some (r, out, h')"
  obtains
    (no_tokenizer) "m_new_tokenizer m [] = None" "r = 0"
      "out = Some \<lparr>doc_sentences = None, doc_count = 0, doc_arena = Some (length (cells h))\<rparr>"
      "h' = snd (new_obj (ArenaObj (new_StringArena DEFAULT_BLOCK_SIZE)) h)"
  | (tokenizer) reader sentences error cs h2 where "m_new_tokenizer m [] = Some reader"
      "sentence_loop (tag_and_parse m (do_parse \<noteq> 0)) tagged_token (length (cells h))
         (fst (reader text)) (snd (reader text)) []
         (snd (new_obj (ArenaObj (new_StringArena DEFAULT_BLOCK_SIZE)) h)) = Some (sentences, error, cs, h2)"
      "finish_document \<lparr>doc_sentences = None, doc_count = 0, doc_arena = Some (length (cells h))\<rparr>
         sentences error h2 = Some (r, out, h')"
  using assms
  by (auto simp: udpipe_tag_structured_def new_obj_def Let_def split: option.splits bind_splits)

lemma tokenize_structured_cases:
  assumes "udpipe_tokenize_structured (Some m) (Some text) tokenizer_options (Some d0) h = Some (r, out, h')"
  obtains
    (no_tokenizer) "m_new_tokenizer m (case tokenizer_options of Some t \<Rightarrow> t | None \<Rightarrow> []) = None" "r = 0"
      "out = Some \<lparr>doc_sentences = None, doc_count = 0, doc_arena = Some (length (cells h))\<rparr>"
      "h' = snd (new_obj (ArenaObj (new_StringArena DEFAULT_BLOCK_SIZE)) h)"
  | (tokenizer) reader sentences error cs h2 where
      "m_new_tokenizer m (case tokenizer_options of Some t \<Rightarrow> t | None \<Rightarrow> []) = Some reader"
      "sentence_loop tokenize_only tokenized_token (length (cells h))
         (fst (reader text)) (snd (reader text)) []
         (snd (new_obj (ArenaObj (new_StringArena DEFAULT_BLOCK_SIZE)) h)) = Some (sentences, error, cs, h2)"
      "finish_document \<lparr>doc_sentences = None, doc_count = 0, doc_arena = Some (length (cells h))\<rparr>
         sentences error h2 = Some (r, out, h')"
  using assms
  by (auto simp: udpipe_tokenize_structured_def new_obj_def Let_def split: option.splits bind_splits)

lemma tagged_loop_grows:
  assumes "good_arena h a"
    and "sentence_loop stage tagged_token a script final sents h = Some (sents', err, cs, h')"
  shows "grows h h'"
proof (rule sentence_loop_grows[where R = "\<lambda>h. token_of_word h (Some a)", OF _ _ assms])
  show "grows h h' \<and> token_of_word h' (Some a) t w"
    if "good_arena h a" "tagged_token a w h = Some (t, h')" for h w t h'
    using that by (rule tagged_token_ok)
  show "token_of_word h' (Some a) t w"
    if "grows h h'" "good_arena h a" "token_of_word h (Some a) t w" for h h' t w
    using that by (rule grows_token_of_word)
qed

lemma tokenized_loop_grows:
  assumes "good_arena h a"
    and "sentence_loop stage tokenized_token a script final sents h = Some (sents', err, cs, h')"
  shows "grows h h'"
proof (rule sentence_loop_grows[where R = "\<lambda>h. token_of_form h (Some a)", OF _ _ assms])
  show "grows h h' \<and> token_of_form h' (Some a) t w"
    if "good_arena h a" "tokenized_token a w h = Some (t, h')" for h w t h'
    using that by (rule tokenized_token_ok)
  show "token_of_form h' (Some a) t w"
    if "grows h h'" "good_arena h a" "token_of_form h (Some a) t w" for h h' t w
    using that by (rule grows_token_of_form)
qed

lemma tagged_loop_complete:
  assumes "good_arena h a"
    and "sentence_loop stage tagged_token a script final [] h = Some (sents', err, True, h')"
  shows "err = final \<and> list_all2 (view_ok (\<lambda>h. token_of_word h (Some a)) h') sents' (staged stage script)"
proof -
  have "err = final \<and>
      list_all2 (view_ok (\<lambda>h. token_of_word h (Some a)) h') sents' ([] @ staged stage script)"
  proof (rule sentence_loop_complete[where R = "\<lambda>h. token_of_word h (Some a)", OF _ _ assms(1) _ assms(2)])
    show "grows h h' \<and> token_of_word h' (Some a) t w"
      if "good_arena h a" "tagged_token a w h = Some (t, h')" for h w t h'
      using that by (rule tagged_token_ok)
    show "token_of_word h' (Some a) t w"
      if "grows h h'" "good_arena h a" "token_of_word h (Some a) t w" for h h' t w
      using that by (rule grows_token_of_word)
    show "list_all2 (view_ok (\<lambda>h. token_of_word h (Some a)) h) [] []" by simp
  qed
  then show ?thesis by simp
qed

lemma tokenized_loop_complete:
  assumes "good_arena h a"
    and "sentence_loop stage tokenized_token a script final [] h = Some (sents', err, True, h')"
  shows "err = final \<and> list_all2 (view_ok (\<lambda>h. token_of_form h (Some a)) h') sents' (staged stage script)"
proof -
  have "err = final \<and>
      list_all2 (view_ok (\<lambda>h. token_of_form h (Some a)) h') sents' ([] @ staged stage script)"
  proof (rule sentence_loop_complete[where R = "\<lambda>h. token_of_form h (Some a)", OF _ _ assms(1) _ assms(2)])
    show "grows h h' \<and> token_of_form h' (Some a) t w"
      if "good_arena h a" "tokenized_token a w h = Some (t, h')" for h w t h'
      using that by (rule tokenized_token_ok)
    show "token_of_form h' (Some a) t w"
      if "grows h h'" "good_arena h a" "token_of_form h (Some a) t w" for h h' t w
      using that by (rule grows_token_of_form)
    show "list_all2 (view_ok (\<lambda>h. token_of_form h (Some a)) h) [] []" by simp
  qed
  then show ?thesis by simp
qed

text \<open>A failure return of either function: what is behind \<^verbatim>\<open>out_doc\<close>, and releasing it.\<close>

lemma failed_output:
  assumes good: "good_arena h1 a" and g: "grows h1 h'"
    and out: "out = Some (d\<lparr>doc_count := 0\<rparr>) \<or> out = Some d"
    and d: "d = \<lparr>doc_sentences = None, doc_count = 0, doc_arena = Some a\<rparr>"
  shows "out = Some \<lparr>doc_sentences = None, doc_count = 0, doc_arena = Some a\<rparr> \<and>
         good_arena h' a \<and>
         udpipe_free_doc out h' = Some (Some zero_doc, h'\<lparr>cells := (cells h')[a := None]\<rparr>)"
proof -
  have o: "out = Some \<lparr>doc_sentences = None, doc_count = 0, doc_arena = Some a\<rparr>"
    using out d by auto
  have good': "good_arena h' a" using g good by (rule grows_good)
  show ?thesis using o good' free_failed_doc[OF good'] by simp
qed

lemma tag_structured_failure:
  assumes "udpipe_tag_structured (Some m) (Some text) do_parse (Some d0) h = Some (0, out, h')"
  shows "out = Some \<lparr>doc_sentences = None, doc_count = 0, doc_arena = Some (length (cells h))\<rparr> \<and>
         good_arena h' (length (cells h)) \<and>
         udpipe_free_doc out h' = Some (Some zero_doc, h'\<lparr>cells := (cells h')[length (cells h) := None]\<rparr>)"
  using assms
proof (cases rule: tag_structured_cases)
  case no_tokenizer
  show ?thesis
    by (rule failed_output[OF new_arena_good[of DEFAULT_BLOCK_SIZE h] _ _ refl])
       (simp_all add: no_tokenizer grows_refl)
next
  case (tokenizer reader sentences error cs h2)
  note good1 = new_arena_good[of DEFAULT_BLOCK_SIZE h]
  have g12: "grows (snd (new_obj (ArenaObj (new_StringArena DEFAULT_BLOCK_SIZE)) h)) h2"
    using good1 tokenizer(2) by (rule tagged_loop_grows)
  from tokenizer(3) show ?thesis
  proof (cases rule: finish_document_cases)
    case failed
    show ?thesis
      by (rule failed_output[OF good1 grows_trans[OF g12 failed(3)] failed(2) refl])
  next
    case (succeeded p)
    then show ?thesis by simp
  qed
qed

lemma tokenize_structured_failure:
  assumes "udpipe_tokenize_structured (Some m) (Some text) opts (Some d0) h = Some (0, out, h')"
  shows "out = Some \<lparr>doc_sentences = None, doc_count = 0, doc_arena = Some (length (cells h))\<rparr> \<and>
         good_arena h' (length (cells h)) \<and>
         udpipe_free_doc out h' = Some (Some zero_doc, h'\<lparr>cells := (cells h')[length (cells h) := None]\<rparr>)"
  using assms
proof (cases rule: tokenize_structured_cases)
  case no_tokenizer
  show ?thesis
    by (rule failed_output[OF new_arena_good[of DEFAULT_BLOCK_SIZE h] _ _ refl])
       (simp_all add: no_tokenizer grows_refl)
next
  case (tokenizer reader sentences error cs h2)
  note good1 = new_arena_good[of DEFAULT_BLOCK_SIZE h]
  have g12: "grows (snd (new_obj (ArenaObj (new_StringArena DEFAULT_BLOCK_SIZE)) h)) h2"
    using good1 tokenizer(2) by (rule tokenized_loop_grows)
  from tokenizer(3) show ?thesis
  proof (cases rule: finish_document_cases)
    case failed
    show ?thesis
      by (rule failed_output[OF good1 grows_trans[OF g12 failed(3)] failed(2) refl])
  next
    case (succeeded p)
    then show ?thesis by simp
  qed
qed

lemma structured_guard:
  "handle = None \<or> utf8_text = None \<or> out_doc = None \<Longrightarrow>
   udpipe_tag_structured handle utf8_text do_parse out_doc h = Some (0, out_doc, h) \<and>
   udpipe_tokenize_structured handle utf8_text opts out_doc h = Some (0, out_doc, h)"
  by (auto simp: udpipe_tag_structured_def udpipe_tokenize_structured_def split: option.splits)

section \<open>Claims about the structured functions\<close>

lemmas eval_defs =
  udpipe_tag_structured_def udpipe_tokenize_structured_def finish_document_def
  tagged_token_def tokenized_token_def
  arena_allocate_def arena_allocate_empty_def allocate_def grow_def put_string_def align_offset_def
  memcpy_def malloc_def malloc_ok_def new_obj_def lookup_def new_StringArena_def
  DEFAULT_BLOCK_SIZE_def sizeof_void_ptr_def tag_and_parse_def tokenize_only_def
  demo_model_def demo_reader_def dogs_run_def cats_sit_def plain_word_def empty_heap_def zero_doc_def
  Let_def split_beta free_partial_def vector_data_def udpipe_free_doc_def

text \<open>
  Claim C2, as amended. A call of \<^verbatim>\<open>udpipe_tag_structured\<close> or \<^verbatim>\<open>udpipe_tokenize_structured\<close>
  that fails its null check returns 0 and leaves what is behind \<^verbatim>\<open>out_doc\<close> as it was. Any
  other call that returns 0 leaves behind \<^verbatim>\<open>out_doc\<close> a null sentences pointer, the count 0
  and, as arena pointer, the arena the call created (the first new allocation), which is
  still allocated; \<^verbatim>\<open>udpipe_free_doc\<close> on that output returns, releases the arena and
  leaves the document zeroed.
\<close>

theorem structured_failure_output:
  "(handle = None \<or> utf8_text = None \<or> out_doc = None \<longrightarrow>
      udpipe_tag_structured handle utf8_text do_parse out_doc h = Some (0, out_doc, h) \<and>
      udpipe_tokenize_structured handle utf8_text tokenizer_options out_doc h = Some (0, out_doc, h)) \<and>
   (udpipe_tag_structured (Some m) (Some input) do_parse (Some d0) h = Some (0, out, h') \<or>
    udpipe_tokenize_structured (Some m) (Some input) tokenizer_options (Some d0) h = Some (0, out, h') \<longrightarrow>
      out = Some \<lparr>doc_sentences = None, doc_count = 0, doc_arena = Some (length (cells h))\<rparr> \<and>
      good_arena h' (length (cells h)) \<and>
      udpipe_free_doc out h' = Some (Some zero_doc, h'\<lparr>cells := (cells h')[length (cells h) := None]\<rparr>))"
proof -
  have 1: "udpipe_tag_structured handle utf8_text do_parse out_doc h = Some (0, out_doc, h) \<and>
      udpipe_tokenize_structured handle utf8_text tokenizer_options out_doc h = Some (0, out_doc, h)"
    if "handle = None \<or> utf8_text = None \<or> out_doc = None"
    using that by (rule structured_guard)
  have 2: "out = Some \<lparr>doc_sentences = None, doc_count = 0, doc_arena = Some (length (cells h))\<rparr> \<and>
      good_arena h' (length (cells h)) \<and>
      udpipe_free_doc out h' = Some (Some zero_doc, h'\<lparr>cells := (cells h')[length (cells h) := None]\<rparr>)"
    if "udpipe_tag_structured (Some m) (Some input) do_parse (Some d0) h = Some (0, out, h') \<or>
      udpipe_tokenize_structured (Some m) (Some input) tokenizer_options (Some d0) h = Some (0, out, h')"
    using that tag_structured_failure tokenize_structured_failure by blast
  from 1 2 show ?thesis by blast
qed

lemma demo_failed_call_returns:
  "\<exists>h'. demo_failed_call =
     Some (0, Some \<lparr>doc_sentences = None, doc_count = 0, doc_arena = Some 0\<rparr>, h')"
  by (simp add: demo_failed_call_def eval_defs)

theorem structured_failure_output_witness:
  "udpipe_tag_structured None (Some ''Dogs run.'') 0 (Some demo_doc) demo_doc_heap =
     Some (0, Some demo_doc, demo_doc_heap) \<and>
   map_option fst demo_failed_call = Some 0 \<and>
   map_option (fst \<circ> snd) demo_failed_call =
     Some (Some \<lparr>doc_sentences = None, doc_count = 0, doc_arena = Some 0\<rparr>) \<and>
   (case demo_failed_call of
      None \<Rightarrow> False
    | Some (r, out, h') \<Rightarrow> map_option fst (udpipe_free_doc out h') = Some (Some zero_doc))"
proof -
  from demo_failed_call_returns obtain h' where
    c: "demo_failed_call = Some (0, Some \<lparr>doc_sentences = None, doc_count = 0, doc_arena = Some 0\<rparr>, h')"
    by blast
  have call: "udpipe_tag_structured (Some demo_model) (Some ''Dogs run.'') 0 (Some zero_doc)
       (empty_heap\<lparr>outcomes := [True, True, False]\<rparr>) =
     Some (0, Some \<lparr>doc_sentences = None, doc_count = 0, doc_arena = Some 0\<rparr>, h')"
    using c by (simp add: demo_failed_call_def)
  have A: "udpipe_tag_structured None (Some ''Dogs run.'') 0 (Some demo_doc) demo_doc_heap =
     Some (0, Some demo_doc, demo_doc_heap)"
    using structured_failure_output[where handle = None and utf8_text = "Some ''Dogs run.''"
        and out_doc = "Some demo_doc" and do_parse = 0 and h = demo_doc_heap]
    by simp
  have B: "udpipe_free_doc (Some \<lparr>doc_sentences = None, doc_count = 0, doc_arena = Some 0\<rparr>) h' =
     Some (Some zero_doc, h'\<lparr>cells := (cells h')[0 := None]\<rparr>)"
    using structured_failure_output[where m = demo_model and input = "''Dogs run.''"
        and do_parse = 0 and ?d0.0 = zero_doc and h = "empty_heap\<lparr>outcomes := [True, True, False]\<rparr>"
        and out = "Some \<lparr>doc_sentences = None, doc_count = 0, doc_arena = Some 0\<rparr>" and h' = h'] call
    by (simp add: empty_heap_def)
  show ?thesis unfolding c using A B by simp
qed

text \<open>
  Claim C2 as stated fails: on a model without a tokenizer \<^verbatim>\<open>udpipe_tag_structured\<close> returns
  0 and the arena pointer behind \<^verbatim>\<open>out_doc\<close> is not null.
\<close>

theorem structured_failure_counterexample:
  "udpipe_tag_structured (Some model_without_tokenizer) (Some ''Dogs run.'') 0 (Some zero_doc) empty_heap =
     Some (0, Some \<lparr>doc_sentences = None, doc_count = 0, doc_arena = Some 0\<rparr>,
           \<lparr>cells = [Some (ArenaObj (new_StringArena DEFAULT_BLOCK_SIZE))], outcomes = []\<rparr>) \<and>
   doc_arena \<lparr>doc_sentences = None, doc_count = 0, doc_arena = Some 0\<rparr> \<noteq> None"
  by (simp add: udpipe_tag_structured_def model_without_tokenizer_def demo_model_def new_obj_def
      empty_heap_def)

lemma list_all2_map_eq:
  "list_all2 (\<lambda>x y. f x = g y) xs ys \<Longrightarrow> map f xs = map g ys"
  by (induction rule: list_all2_induct) simp_all

lemma token_ids:
  assumes "list_all2 (\<lambda>ts s. list_all2 (token_of_word h a) ts (real_words s)) tss ss"
  shows "map (map t_id) tss = map (\<lambda>s. map w_id (real_words s)) ss"
  using assms
proof (induction rule: list_all2_induct)
  case Nil
  then show ?case by simp
next
  case (Cons ts tss s ss)
  have "list_all2 (\<lambda>t w. t_id t = w_id w) ts (real_words s)"
    using Cons.hyps(1) by (rule list_all2_mono) (simp add: token_of_word_def)
  then have "map t_id ts = map w_id (real_words s)" by (rule list_all2_map_eq)
  then show ?case using Cons.IH by simp
qed

lemma token_counts:
  assumes "list_all2 (\<lambda>ts s. list_all2 R ts (real_words s)) tss ss"
  shows "map length tss = map (\<lambda>s. length (real_words s)) ss"
  using assms
  by (induction rule: list_all2_induct) (auto dest: list_all2_lengthD)

text \<open>
  What \<^verbatim>\<open>udpipe_tag_structured\<close> returns when the engine reports its failures. Let the
  tagger and the parser leave an error message whenever they return \<^verbatim>\<open>false\<close> on a sentence
  of the text. If the call returns 1, the document holds one sentence view for each
  sentence the tokenizer produced, in their order; the token array of the i-th view holds
  exactly the words of the i-th sentence (as tagged and parsed) whose identifier is above
  0, in their order, with identifier, head, byte range and strings of the word; its count
  is the number of those words.
\<close>

lemma tag_structured_tokens:
  assumes tk: "m_new_tokenizer m [] = Some reader"
    and rf: "reports_failure (tag_and_parse m (do_parse \<noteq> 0)) (fst (reader input))"
    and ok: "udpipe_tag_structured (Some m) (Some input) do_parse (Some d0) h = Some (1, Some d, h')"
  shows "\<exists>svs tss.
           doc_views h' d = Some svs \<and> doc_tokens h' d = Some tss \<and>
           doc_count d = length (fst (reader input)) \<and>
           length tss = length (fst (reader input)) \<and>
           map sv_count svs =
             map (\<lambda>s. length (real_words s)) (staged (tag_and_parse m (do_parse \<noteq> 0)) (fst (reader input))) \<and>
           map (map t_id) tss =
             map (\<lambda>s. map w_id (real_words s)) (staged (tag_and_parse m (do_parse \<noteq> 0)) (fst (reader input))) \<and>
           list_all2 (\<lambda>ts s. list_all2 (token_of_word h' (doc_arena d)) ts (real_words s)) tss
             (staged (tag_and_parse m (do_parse \<noteq> 0)) (fst (reader input)))"
  using ok
proof (cases rule: tag_structured_cases)
  case no_tokenizer
  then show ?thesis by simp
next
  case (tokenizer reader' sentences error cs h2)
  let ?a = "length (cells h)"
  let ?h1 = "snd (new_obj (ArenaObj (new_StringArena DEFAULT_BLOCK_SIZE)) h)"
  let ?stage = "tag_and_parse m (do_parse \<noteq> 0)"
  let ?ss = "staged ?stage (fst (reader input))"
  have rd: "reader' = reader" using tk tokenizer(1) by simp
  note loop = tokenizer(2)[unfolded rd]
  note good1 = new_arena_good[of DEFAULT_BLOCK_SIZE h]
  from tokenizer(3) show ?thesis
  proof (cases rule: finish_document_cases)
    case failed
    then show ?thesis by simp
  next
    case (succeeded p)
    have cs: cs
    proof (rule ccontr)
      assume "\<not> cs"
      with loop have "sentence_loop ?stage tagged_token ?a (fst (reader input)) (snd (reader input)) [] ?h1
          = Some (sentences, error, False, h2)" by simp
      from sentence_loop_break[OF rf this] succeeded(1) show False by simp
    qed
    from tagged_loop_complete[OF good1 loop[unfolded cs[THEN eqTrueI]]]
    have views: "list_all2 (view_ok (\<lambda>h. token_of_word h (Some ?a)) h2) sentences ?ss" by simp
    have good2: "good_arena h2 ?a"
      using tagged_loop_grows[OF good1 loop] good1 by (rule grows_good)
    have d: "d = \<lparr>doc_sentences = Some p, doc_count = length sentences, doc_arena = Some ?a\<rparr>"
      using succeeded(4) by simp
    from built_doc_reads[where R = "\<lambda>h. token_of_word h (Some ?a)", OF _ good2 views succeeded(2) d]
      grows_token_of_word
    obtain tss where r: "doc_views h' d = Some sentences" "doc_tokens h' d = Some tss"
        "map sv_count sentences = map length tss" "length tss = length ?ss"
        "list_all2 (\<lambda>ts s. list_all2 (token_of_word h' (Some ?a)) ts (real_words s)) tss ?ss"
      by blast
    have len: "length ?ss = length (fst (reader input))" by (simp add: staged_def)
    have "length sentences = length tss"
      using arg_cong[OF r(3), of length] by simp
    then have cnt: "doc_count d = length (fst (reader input))"
      using len r(4) d by simp
    have da: "doc_arena d = Some ?a" using d by simp
    show ?thesis
      using r cnt len token_ids[OF r(5)] token_counts[OF r(5)] da by auto
  qed
qed

lemma demo_tag_call_returns:
  "\<exists>d h'. demo_tag_call = Some (1, Some d, h') \<and> doc_count d = 2"
  by (simp add: demo_tag_call_def eval_defs)

lemma demo_staged:
  "map (\<lambda>s. map w_id (real_words s))
     (staged (tag_and_parse demo_model (1 \<noteq> (0::int))) (fst (demo_reader ''Dogs run. Cats sit.''))) =
   [[1, 2, 3], [1, 2, 3]]"
  by (simp add: staged_def tag_and_parse_def demo_model_def demo_reader_def dogs_run_def cats_sit_def
      plain_word_def real_words_def)

lemma tag_structured_tokens_demo:
  "m_new_tokenizer demo_model [] = Some demo_reader \<and>
   reports_failure (tag_and_parse demo_model (1 \<noteq> (0::int))) (fst (demo_reader ''Dogs run. Cats sit.'')) \<and>
   (case demo_tag_call of
      Some (r, Some d, h') \<Rightarrow>
        r = 1 \<and> doc_count d = 2 \<and>
        map_option (map (map t_id)) (doc_tokens h' d) = Some [[1, 2, 3], [1, 2, 3]] \<and>
        map_option (map sv_count) (doc_views h' d) = Some [3, 3]
    | _ \<Rightarrow> False)"
proof -
  have tk: "m_new_tokenizer demo_model [] = Some demo_reader" by (simp add: demo_model_def)
  have rf: "reports_failure (tag_and_parse demo_model (1 \<noteq> (0::int))) (fst (demo_reader ''Dogs run. Cats sit.''))"
    by (simp add: reports_failure_def tag_and_parse_def demo_model_def demo_reader_def)
  from demo_tag_call_returns obtain d h' where c: "demo_tag_call = Some (1, Some d, h')"
    and n: "doc_count d = 2" by blast
  have ok: "udpipe_tag_structured (Some demo_model) (Some ''Dogs run. Cats sit.'') 1 (Some zero_doc) empty_heap
      = Some (1, Some d, h')"
    using c by (simp add: demo_tag_call_def)
  from tag_structured_tokens[OF tk rf ok] obtain svs tss where
    r: "doc_views h' d = Some svs" "doc_tokens h' d = Some tss"
       "map sv_count svs = map (\<lambda>s. length (real_words s))
          (staged (tag_and_parse demo_model (1 \<noteq> (0::int))) (fst (demo_reader ''Dogs run. Cats sit.'')))"
       "map (map t_id) tss = map (\<lambda>s. map w_id (real_words s))
          (staged (tag_and_parse demo_model (1 \<noteq> (0::int))) (fst (demo_reader ''Dogs run. Cats sit.'')))"
    by blast
  have cnt: "map sv_count svs = [3, 3]"
    using r(3) arg_cong[OF demo_staged, of "map length"] by (simp add: comp_def)
  show ?thesis unfolding c using tk rf n r(1,2) r(4)[unfolded demo_staged] cnt by simp
qed


text \<open>
  Claim C4. If \<^verbatim>\<open>udpipe_tokenize_structured\<close> returns 1, the document reads back, and every
  token of every sentence has head -1 and has lemma, upos, xpostag, feats and deprel
  pointing to the empty string.
\<close>

theorem tokenize_structured_fields:
  assumes ok: "udpipe_tokenize_structured (Some m) (Some input) tokenizer_options (Some d0) h =
      Some (1, Some d, h')"
  shows "\<exists>tss. doc_tokens h' d = Some tss \<and>
           (\<forall>ts\<in>set tss. \<forall>t\<in>set ts.
              t_head t = - 1 \<and>
              string_at h' (doc_arena d) (t_lemma t) = Some [] \<and>
              string_at h' (doc_arena d) (t_upos t) = Some [] \<and>
              string_at h' (doc_arena d) (t_xpostag t) = Some [] \<and>
              string_at h' (doc_arena d) (t_feats t) = Some [] \<and>
              string_at h' (doc_arena d) (t_deprel t) = Some [])"
  using ok
proof (cases rule: tokenize_structured_cases)
  case no_tokenizer
  then show ?thesis by simp
next
  case (tokenizer reader sentences error cs h2)
  let ?a = "length (cells h)"
  let ?h1 = "snd (new_obj (ArenaObj (new_StringArena DEFAULT_BLOCK_SIZE)) h)"
  let ?ss = "staged tokenize_only (fst (reader input))"
  note loop = tokenizer(2)
  note good1 = new_arena_good[of DEFAULT_BLOCK_SIZE h]
  have rf: "reports_failure tokenize_only (fst (reader input))"
    by (simp add: reports_failure_def tokenize_only_def list_all_iff split_beta)
  from tokenizer(3) show ?thesis
  proof (cases rule: finish_document_cases)
    case failed
    then show ?thesis by simp
  next
    case (succeeded p)
    have cs: cs
    proof (rule ccontr)
      assume "\<not> cs"
      with loop have "sentence_loop tokenize_only tokenized_token ?a (fst (reader input)) (snd (reader input)) [] ?h1
          = Some (sentences, error, False, h2)" by simp
      from sentence_loop_break[OF rf this] succeeded(1) show False by simp
    qed
    from tokenized_loop_complete[OF good1 loop[unfolded cs[THEN eqTrueI]]]
    have views: "list_all2 (view_ok (\<lambda>h. token_of_form h (Some ?a)) h2) sentences ?ss" by simp
    have good2: "good_arena h2 ?a"
      using tokenized_loop_grows[OF good1 loop] good1 by (rule grows_good)
    have d: "d = \<lparr>doc_sentences = Some p, doc_count = length sentences, doc_arena = Some ?a\<rparr>"
      using succeeded(4) by simp
    from built_doc_reads[where R = "\<lambda>h. token_of_form h (Some ?a)", OF _ good2 views succeeded(2) d]
      grows_token_of_form
    obtain tss where r: "doc_tokens h' d = Some tss"
        "list_all2 (\<lambda>ts s. list_all2 (token_of_form h' (Some ?a)) ts (real_words s)) tss ?ss"
      by blast
    have da: "doc_arena d = Some ?a" using d by simp
    have "\<exists>w. token_of_form h' (Some ?a) t w" if "ts \<in> set tss" "t \<in> set ts" for ts t
    proof -
      from that(1) r(2) obtain s where "list_all2 (token_of_form h' (Some ?a)) ts (real_words s)"
        by (auto simp: list_all2_conv_all_nth in_set_conv_nth)
      with that(2) show ?thesis by (auto simp: list_all2_conv_all_nth in_set_conv_nth)
    qed
    then show ?thesis using r(1) da by (auto simp: token_of_form_def)
  qed
qed

lemma demo_tokenize_call_returns:
  "\<exists>d h'. demo_tokenize_call = Some (1, Some d, h') \<and>
     map_option (map (map t_head)) (doc_tokens h' d) = Some [[- 1, - 1, - 1]]"
  by (simp add: demo_tokenize_call_def eval_defs doc_tokens_def sentence_tokens_def)

theorem tokenize_structured_fields_witness:
  "case demo_tokenize_call of
     Some (r, Some d, h') \<Rightarrow>
       r = 1 \<and>
       (case doc_tokens h' d of
          None \<Rightarrow> False
        | Some tss \<Rightarrow>
            map (map t_head) tss = [[- 1, - 1, - 1]] \<and>
            list_all (list_all (\<lambda>t.
              string_at h' (doc_arena d) (t_lemma t) = Some [] \<and>
              string_at h' (doc_arena d) (t_upos t) = Some [] \<and>
              string_at h' (doc_arena d) (t_xpostag t) = Some [] \<and>
              string_at h' (doc_arena d) (t_feats t) = Some [] \<and>
              string_at h' (doc_arena d) (t_deprel t) = Some [])) tss)
   | _ \<Rightarrow> False"
proof -
  from demo_tokenize_call_returns obtain d h' where c: "demo_tokenize_call = Some (1, Some d, h')"
    and hd: "map_option (map (map t_head)) (doc_tokens h' d) = Some [[- 1, - 1, - 1]]" by auto
  have ok: "udpipe_tokenize_structured (Some demo_model) (Some ''Dogs run.'') None (Some zero_doc) empty_heap
      = Some (1, Some d, h')"
    using c by (simp add: demo_tokenize_call_def)
  from tokenize_structured_fields[OF ok] hd show ?thesis unfolding c
    by (auto simp: list_all_iff)
qed

section \<open>The batch\<close>

lemma those_tokens_grows:
  "grows h h' \<Longrightarrow> those (map (sentence_tokens h) svs) = Some tss \<Longrightarrow>
   those (map (sentence_tokens h') svs) = Some tss"
proof (induction svs arbitrary: tss)
  case Nil
  then show ?case by simp
next
  case (Cons sv svs)
  from Cons.prems(2) obtain ts tss' where
    t: "sentence_tokens h sv = Some ts" "those (map (sentence_tokens h) svs) = Some tss'" "tss = ts # tss'"
    by (auto split: option.splits)
  from sentence_tokens_grows[OF Cons.prems(1) t(1)] Cons.IH[OF Cons.prems(1) t(2)] t(3)
  show ?case by simp
qed

lemma doc_tokens_grows:
  assumes "grows h h'" "doc_tokens h d = Some tss"
  shows "doc_tokens h' d = Some tss"
proof -
  from assms(2) obtain svs where v: "doc_views h d = Some svs"
      and t: "those (map (sentence_tokens h) svs) = Some tss"
    by (auto simp: doc_tokens_views split: option.splits)
  from v obtain p where p: "doc_sentences d = Some p" "lookup h p = Some (SentenceArray svs)"
      "doc_count d = length svs"
    by (auto simp: doc_views_def split: option.splits obj.splits if_splits)
  from grows_sentences[OF assms(1) p(2)] p have "doc_views h' d = Some svs"
    by (simp add: doc_views_def)
  with those_tokens_grows[OF assms(1) t] show ?thesis by (simp add: doc_tokens_views)
qed

lemma slot_done_grows:
  assumes g: "grows h h'" and s: "slot_done m dp h d x"
  shows "slot_done m dp h' d x"
proof -
  from s obtain a where a: "doc_arena d = Some a" "good_arena h a"
    by (auto simp: slot_done_def split: option.splits)
  from s obtain reader tss where r: "m_new_tokenizer m [] = Some reader" "doc_tokens h d = Some tss"
      "doc_count d = length (fst (reader x))"
      "list_all2 (\<lambda>ts s. list_all2 (token_of_word h (Some a)) ts (real_words s)) tss
         (staged (tag_and_parse m dp) (fst (reader x)))"
    using a by (auto simp: slot_done_def tagged_doc_def split: option.splits)
  have "list_all2 (\<lambda>ts s. list_all2 (token_of_word h' (Some a)) ts (real_words s)) tss
         (staged (tag_and_parse m dp) (fst (reader x)))"
    using r(4)
  proof (rule list_all2_mono)
    fix ts s assume "list_all2 (token_of_word h (Some a)) ts (real_words s)"
    then show "list_all2 (token_of_word h' (Some a)) ts (real_words s)"
      by (rule list_all2_mono) (rule grows_token_of_word[OF g a(2)])
  qed
  then show ?thesis
    using r(1,3) doc_tokens_grows[OF g r(2)] a(1) grows_good[OF g a(2)]
    by (simp add: slot_done_def tagged_doc_def)
qed

lemma worker_round_cases:
  assumes "worker_round m dp x h = Some (ok, doc, h')"
  obtains
    (no_tokenizer) "m_new_tokenizer m [] = None" "\<not> ok"
      "h' = snd (new_obj (ArenaObj (new_StringArena DEFAULT_BLOCK_SIZE)) h)"
  | (failed) reader sentences error cs h2 where "m_new_tokenizer m [] = Some reader"
      "sentence_loop (tag_and_parse m dp) tagged_token (length (cells h))
         (fst (reader x)) (snd (reader x)) []
         (snd (new_obj (ArenaObj (new_StringArena DEFAULT_BLOCK_SIZE)) h)) = Some (sentences, error, cs, h2)"
      "\<not> ok" "grows h2 h'"
  | (succeeded) reader sentences h2 p where "m_new_tokenizer m [] = Some reader"
      "sentence_loop (tag_and_parse m dp) tagged_token (length (cells h))
         (fst (reader x)) (snd (reader x)) []
         (snd (new_obj (ArenaObj (new_StringArena DEFAULT_BLOCK_SIZE)) h)) = Some (sentences, [], True, h2)"
      "malloc (SentenceArray sentences) h2 = (Some p, h')" "ok"
      "doc = \<lparr>doc_sentences = Some p, doc_count = length sentences, doc_arena = Some (length (cells h))\<rparr>"
proof (cases "m_new_tokenizer m []")
  case None
  with assms show ?thesis
    by (intro no_tokenizer) (auto simp: worker_round_def new_obj_def Let_def)
next
  case (Some reader)
  let ?h1 = "snd (new_obj (ArenaObj (new_StringArena DEFAULT_BLOCK_SIZE)) h)"
  let ?doc = "\<lparr>doc_sentences = None, doc_count = 0, doc_arena = Some (length (cells h))\<rparr>"
  from assms Some obtain sentences error cs h2 where
    l: "sentence_loop (tag_and_parse m dp) tagged_token (length (cells h))
         (fst (reader x)) (snd (reader x)) [] ?h1 = Some (sentences, error, cs, h2)"
    and rest: "(if \<not> (cs \<and> error = []) then free_partial sentences h2 \<bind> (\<lambda>h3. Some (False, ?doc, h3))
               else (case malloc (SentenceArray sentences) h2 of
                    (None, h3) \<Rightarrow> free_partial sentences h3 \<bind> (\<lambda>h4. Some (False, ?doc\<lparr>doc_count := 0\<rparr>, h4))
                  | (Some p, h3) \<Rightarrow>
                      Some (True, ?doc\<lparr>doc_count := length sentences, doc_sentences := Some p\<rparr>, h3)))
             = Some (ok, doc, h')"
    by (auto simp: worker_round_def new_obj_def Let_def split: bind_splits)
  show ?thesis
  proof (cases "cs \<and> error = []")
    case False
    with rest obtain h3 where f: "free_partial sentences h2 = Some h3" and e: "\<not> ok" "h' = h3"
      by (auto split: bind_splits)
    from free_partial_Some[OF f] e have "grows h2 h'" by (simp add: grows_refl)
    with Some l e show ?thesis by (intro failed) simp_all
  next
    case True
    obtain p h3 where m: "malloc (SentenceArray sentences) h2 = (p, h3)"
      by (cases "malloc (SentenceArray sentences) h2")
    show ?thesis
    proof (cases p)
      case None
      with rest True m obtain h4 where f: "free_partial sentences h3 = Some h4" and e: "\<not> ok" "h' = h4"
        by (auto split: bind_splits)
      from free_partial_Some[OF f] e malloc_None_grows[OF m] have "grows h2 h'" by simp
      with Some l e show ?thesis by (intro failed) simp_all
    next
      case (Some q)
      with rest True m have "ok" "h' = h3"
        "doc = \<lparr>doc_sentences = Some q, doc_count = length sentences, doc_arena = Some (length (cells h))\<rparr>"
        by simp_all
      with \<open>m_new_tokenizer m [] = Some reader\<close> l m Some True show ?thesis
        by (intro succeeded[of reader sentences h2 q]) simp_all
    qed
  qed
qed

lemma worker_round_grows:
  assumes "worker_round m dp x h = Some (ok, doc, h')"
  shows "grows h h'"
proof -
  let ?h1 = "snd (new_obj (ArenaObj (new_StringArena DEFAULT_BLOCK_SIZE)) h)"
  have g1: "grows h ?h1" by (rule new_obj_grows)
  note good1 = new_arena_good[of DEFAULT_BLOCK_SIZE h]
  from assms show ?thesis
  proof (cases rule: worker_round_cases)
    case no_tokenizer
    then show ?thesis using g1 by simp
  next
    case (failed reader sentences error cs h2)
    from tagged_loop_grows[OF good1 failed(2)] failed(4) have "grows ?h1 h'" by (rule grows_trans)
    with g1 show ?thesis by (rule grows_trans)
  next
    case (succeeded reader sentences h2 p)
    from tagged_loop_grows[OF good1 succeeded(2)] malloc_None_grows[OF succeeded(3)]
    have "grows ?h1 h'" by (rule grows_trans)
    with g1 show ?thesis by (rule grows_trans)
  qed
qed

lemma worker_round_done:
  assumes "worker_round m dp x h = Some (True, doc, h')"
  shows "slot_done m dp h' doc x"
  using assms
proof (cases rule: worker_round_cases)
  case no_tokenizer
  then show ?thesis by simp
next
  case (failed reader sentences error cs h2)
  then show ?thesis by simp
next
  case (succeeded reader sentences h2 p)
  let ?a = "length (cells h)"
  let ?ss = "staged (tag_and_parse m dp) (fst (reader x))"
  note good1 = new_arena_good[of DEFAULT_BLOCK_SIZE h]
  from tagged_loop_complete[OF good1 succeeded(2)]
  have views: "list_all2 (view_ok (\<lambda>h. token_of_word h (Some ?a)) h2) sentences ?ss" by simp
  have good2: "good_arena h2 ?a"
    using tagged_loop_grows[OF good1 succeeded(2)] good1 by (rule grows_good)
  have good': "good_arena h' ?a"
    using malloc_None_grows[OF succeeded(3)] good2 by (rule grows_good)
  from built_doc_reads[where R = "\<lambda>h. token_of_word h (Some ?a)", OF _ good2 views succeeded(3) succeeded(5)]
    grows_token_of_word
  obtain tss where r: "doc_views h' doc = Some sentences" "doc_tokens h' doc = Some tss"
      "map sv_count sentences = map length tss" "length tss = length ?ss"
      "list_all2 (\<lambda>ts s. list_all2 (token_of_word h' (Some ?a)) ts (real_words s)) tss ?ss"
    by blast
  have "length sentences = length tss" using arg_cong[OF r(3), of length] by simp
  then have "doc_count doc = length (fst (reader x))"
    using r(4) succeeded(5) by (simp add: staged_def)
  then show ?thesis
    using succeeded(1,5) r(2,5) good' by (simp add: slot_done_def tagged_doc_def)
qed

lemma in_set_update_other:
  assumes "y \<in> set xs" "xs ! w \<noteq> y"
  shows "y \<in> set (xs[w := x])"
proof -
  from assms(1) obtain j where j: "j < length xs" "xs ! j = y" by (auto simp: in_set_conv_nth)
  with assms(2) have "j \<noteq> w" by auto
  with j have "j < length (xs[w := x])" "xs[w := x] ! j = y" by simp_all
  then show ?thesis by (auto simp: in_set_conv_nth)
qed

lemma in_set_updateD: "y \<in> set (xs[w := x]) \<Longrightarrow> y = x \<or> y \<in> set xs"
  using set_update_subset_insert[of xs w x] by auto

lemma batch_invD:
  assumes "batch_inv m dp texts st"
  shows "length (results st) = length texts"
    and "claims_exclusive st"
    and "\<And>w i. w < length (threads st) \<Longrightarrow> threads st ! w = AtBody i \<Longrightarrow>
           i < next_index st \<and> i < length texts"
    and "\<And>i. success_flag st \<Longrightarrow> i < length texts \<Longrightarrow> i < next_index st \<Longrightarrow>
           AtBody i \<in> set (threads st) \<or> slot_done m dp (store st) (results st ! i) (texts ! i)"
    and "success_flag st \<Longrightarrow> Finished \<in> set (threads st) \<Longrightarrow> length texts < next_index st"
  using assms by (simp_all add: batch_inv_def)

lemma batch_invI:
  assumes "length (results st) = length texts"
    and "claims_exclusive st"
    and "\<And>w i. w < length (threads st) \<Longrightarrow> threads st ! w = AtBody i \<Longrightarrow>
           i < next_index st \<and> i < length texts"
    and "\<And>i. success_flag st \<Longrightarrow> i < length texts \<Longrightarrow> i < next_index st \<Longrightarrow>
           AtBody i \<in> set (threads st) \<or> slot_done m dp (store st) (results st ! i) (texts ! i)"
    and "success_flag st \<Longrightarrow> Finished \<in> set (threads st) \<Longrightarrow> length texts < next_index st"
  shows "batch_inv m dp texts st"
  using assms by (simp add: batch_inv_def)

lemma update_AtBody:
  assumes "xs[w := x] ! j = AtBody i" "j < length xs" "\<And>i. x \<noteq> AtBody i"
  shows "xs ! j = AtBody i \<and> j \<noteq> w"
proof (cases "j = w")
  case True
  with assms show ?thesis by simp
next
  case False
  with assms show ?thesis by simp
qed

text \<open>A thread that moves to a position without an index leaves the claims exclusive.\<close>

lemma exclusive_release:
  assumes e: "claims_exclusive st" and x: "\<And>i. x \<noteq> AtBody i"
  shows "claims_exclusive (st\<lparr>threads := (threads st)[w := x]\<rparr>)"
  unfolding claims_exclusive_def
proof (intro allI impI)
  fix w1 w2 i
  assume l: "w1 < length (threads (st\<lparr>threads := (threads st)[w := x]\<rparr>))"
      "w2 < length (threads (st\<lparr>threads := (threads st)[w := x]\<rparr>))"
    and a: "threads (st\<lparr>threads := (threads st)[w := x]\<rparr>) ! w1 = AtBody i \<and>
      threads (st\<lparr>threads := (threads st)[w := x]\<rparr>) ! w2 = AtBody i"
  from l have l': "w1 < length (threads st)" "w2 < length (threads st)" by simp_all
  from a have "(threads st)[w := x] ! w1 = AtBody i" "(threads st)[w := x] ! w2 = AtBody i" by simp_all
  from update_AtBody[OF this(1) l'(1) x] update_AtBody[OF this(2) l'(2) x]
  have "threads st ! w1 = AtBody i" "threads st ! w2 = AtBody i" by simp_all
  with e l' show "w1 = w2" unfolding claims_exclusive_def by blast
qed

lemma inv_AtWhile:
  assumes inv: "batch_inv m dp texts st" and w: "w < length (threads st)"
    and t: "threads st ! w = AtWhile"
  shows "batch_inv m dp texts
     (st\<lparr>threads := (threads st)[w := (if success_flag st then AtFetch else Finished)]\<rparr>)"
proof (rule batch_invI)
  let ?x = "if success_flag st then AtFetch else Finished"
  let ?st = "st\<lparr>threads := (threads st)[w := ?x]\<rparr>"
  note d = batch_invD[OF inv]
  show "length (results ?st) = length texts" using d(1) by simp
  show "claims_exclusive ?st" by (rule exclusive_release[OF d(2)]) simp
  show "i < next_index ?st \<and> i < length texts"
    if "w' < length (threads ?st)" "threads ?st ! w' = AtBody i" for w' i
  proof -
    from that have l: "w' < length (threads st)" and u: "(threads st)[w := ?x] ! w' = AtBody i"
      by simp_all
    have "threads st ! w' = AtBody i \<and> w' \<noteq> w" by (rule update_AtBody[OF u l]) simp
    with d(3)[OF l] show ?thesis by simp
  qed
  show "AtBody i \<in> set (threads ?st) \<or> slot_done m dp (store ?st) (results ?st ! i) (texts ! i)"
    if "success_flag ?st" "i < length texts" "i < next_index ?st" for i
  proof -
    from that d(4)[of i] consider "AtBody i \<in> set (threads st)"
      | "slot_done m dp (store st) (results st ! i) (texts ! i)" by auto
    then show ?thesis
    proof cases
      case 1
      then have "AtBody i \<in> set ((threads st)[w := ?x])"
        by (rule in_set_update_other) (simp add: t)
      then show ?thesis by simp
    next
      case 2
      then show ?thesis by simp
    qed
  qed
  show "length texts < next_index ?st" if "success_flag ?st" "Finished \<in> set (threads ?st)"
  proof -
    from that have "Finished \<in> set ((threads st)[w := AtFetch])" by simp
    from in_set_updateD[OF this] have "Finished \<in> set (threads st)" by simp
    with that(1) d(5) show ?thesis by simp
  qed
qed

lemma inv_AtFetch:
  assumes inv: "batch_inv m dp texts st" and w: "w < length (threads st)"
    and t: "threads st ! w = AtFetch"
  shows "batch_inv m dp texts
     (st\<lparr>next_index := next_index st + 1,
         threads := (threads st)[w := (if length texts \<le> next_index st then Finished
                                      else AtBody (next_index st))]\<rparr>)"
proof (rule batch_invI)
  let ?x = "if length texts \<le> next_index st then Finished else AtBody (next_index st)"
  let ?st = "st\<lparr>next_index := next_index st + 1, threads := (threads st)[w := ?x]\<rparr>"
  note d = batch_invD[OF inv]
  show "length (results ?st) = length texts" using d(1) by simp
  show b: "i < next_index ?st \<and> i < length texts"
    if "w' < length (threads ?st)" "threads ?st ! w' = AtBody i" for w' i
  proof (cases "w' = w")
    case True
    with that w show ?thesis by (auto split: if_splits)
  next
    case False
    with that d(3)[of w' i] show ?thesis by auto
  qed
  show "claims_exclusive ?st"
    unfolding claims_exclusive_def
  proof (intro allI impI)
    fix w1 w2 i
    assume l: "w1 < length (threads ?st)" "w2 < length (threads ?st)"
      and e: "threads ?st ! w1 = AtBody i \<and> threads ?st ! w2 = AtBody i"
    show "w1 = w2"
    proof (cases "w1 = w \<or> w2 = w")
      case False
      with l e d(2) show ?thesis by (auto simp: claims_exclusive_def)
    next
      case True
      show ?thesis
      proof (rule ccontr)
        assume ne: "w1 \<noteq> w2"
        have "\<exists>v. v \<noteq> w \<and> v < length (threads st) \<and> threads ?st ! w = AtBody i \<and>
            threads ?st ! v = AtBody i"
        proof (cases "w1 = w")
          case True
          with ne l e show ?thesis by (intro exI[of _ w2]) simp
        next
          case False
          with \<open>w1 = w \<or> w2 = w\<close> l e show ?thesis by (intro exI[of _ w1]) simp
        qed
        then obtain v where uv: "v \<noteq> w" "v < length (threads st)"
            "threads ?st ! w = AtBody i" "threads ?st ! v = AtBody i" by blast
        from uv(3) w have "i = next_index st" by (auto split: if_splits)
        moreover from uv(1,2,4) have "threads st ! v = AtBody i" by simp
        from d(3)[OF uv(2) this] have "i < next_index st" by simp
        ultimately show False by simp
      qed
    qed
  qed
  show "AtBody i \<in> set (threads ?st) \<or> slot_done m dp (store ?st) (results ?st ! i) (texts ! i)"
    if "success_flag ?st" "i < length texts" "i < next_index ?st" for i
  proof (cases "i = next_index st")
    case True
    with that(2) have "?x = AtBody i" by simp
    then have "AtBody i \<in> set ((threads st)[w := ?x])"
      using w by (metis set_update_memI)
    then show ?thesis by simp
  next
    case False
    with that have "i < next_index st" by simp
    with that d(4)[of i] consider "AtBody i \<in> set (threads st)"
      | "slot_done m dp (store st) (results st ! i) (texts ! i)" by auto
    then show ?thesis
    proof cases
      case 1
      then have "AtBody i \<in> set ((threads st)[w := ?x])"
        by (rule in_set_update_other) (simp add: t)
      then show ?thesis by simp
    next
      case 2
      then show ?thesis by simp
    qed
  qed
  show "length texts < next_index ?st" if "success_flag ?st" "Finished \<in> set (threads ?st)"
  proof -
    from that(2) have "Finished \<in> set ((threads st)[w := ?x])" by simp
    from in_set_updateD[OF this] consider "?x = Finished" | "Finished \<in> set (threads st)" by auto
    then show ?thesis
    proof cases
      case 1
      then have "length texts \<le> next_index st" by (auto split: if_splits)
      then show ?thesis by simp
    next
      case 2
      with that(1) d(5) show ?thesis by simp
    qed
  qed
qed

lemma inv_AtBody:
  assumes inv: "batch_inv m dp texts st" and w: "w < length (threads st)"
    and t: "threads st ! w = AtBody k"
    and r: "worker_round m dp (texts ! k) (store st) = Some (ok, doc, h')"
  shows "batch_inv m dp texts
     (st\<lparr>success_flag := (success_flag st \<and> ok), results := (results st)[k := doc],
         store := h', threads := (threads st)[w := AtWhile]\<rparr>)"
proof (rule batch_invI)
  let ?st = "st\<lparr>success_flag := (success_flag st \<and> ok), results := (results st)[k := doc],
         store := h', threads := (threads st)[w := AtWhile]\<rparr>"
  note d = batch_invD[OF inv]
  from d(3)[OF w t] d(1) have k: "k < length (results st)" "k < length texts" by simp_all
  have g: "grows (store st) h'" using r by (rule worker_round_grows)
  show "length (results ?st) = length texts" using d(1) by simp
  have "claims_exclusive (st\<lparr>threads := (threads st)[w := AtWhile]\<rparr>)"
    by (rule exclusive_release[OF d(2)]) simp
  then show "claims_exclusive ?st" by (simp add: claims_exclusive_def)
  show "i < next_index ?st \<and> i < length texts"
    if "w' < length (threads ?st)" "threads ?st ! w' = AtBody i" for w' i
  proof -
    from that have l: "w' < length (threads st)" and u: "(threads st)[w := AtWhile] ! w' = AtBody i"
      by simp_all
    have "threads st ! w' = AtBody i \<and> w' \<noteq> w" by (rule update_AtBody[OF u l]) simp
    with d(3)[OF l] show ?thesis by simp
  qed
  show "AtBody i \<in> set (threads ?st) \<or> slot_done m dp (store ?st) (results ?st ! i) (texts ! i)"
    if "success_flag ?st" "i < length texts" "i < next_index ?st" for i
  proof (cases "i = k")
    case True
    from that(1) have "ok" by simp
    with r have "slot_done m dp h' doc (texts ! k)" by (intro worker_round_done) simp
    then show ?thesis using True k by simp
  next
    case False
    from that d(4)[of i] consider "AtBody i \<in> set (threads st)"
      | "slot_done m dp (store st) (results st ! i) (texts ! i)" by auto
    then show ?thesis
    proof cases
      case 1
      then have "AtBody i \<in> set ((threads st)[w := AtWhile])"
        by (rule in_set_update_other) (use t False in auto)
      then show ?thesis by simp
    next
      case 2
      from slot_done_grows[OF g this] False show ?thesis by simp
    qed
  qed
  show "length texts < next_index ?st" if "success_flag ?st" "Finished \<in> set (threads ?st)"
  proof -
    from that(2) have "Finished \<in> set ((threads st)[w := AtWhile])" by simp
    from in_set_updateD[OF this] have "Finished \<in> set (threads st)" by simp
    with that(1) d(5) show ?thesis by simp
  qed
qed

lemma worker_step_inv:
  assumes inv: "batch_inv m dp texts st" and s: "worker_step m dp texts w st = Some st'"
  shows "batch_inv m dp texts st'"
proof (cases "length (threads st) \<le> w")
  case True
  with s inv show ?thesis by (simp add: worker_step_def)
next
  case False
  then have w: "w < length (threads st)" by simp
  show ?thesis
  proof (cases "threads st ! w")
    case AtWhile
    with s w have "st' = st\<lparr>threads := (threads st)[w := (if success_flag st then AtFetch else Finished)]\<rparr>"
      by (simp add: worker_step_def)
    then show ?thesis using inv_AtWhile[OF inv w AtWhile] by simp
  next
    case AtFetch
    with s w have "st' = st\<lparr>next_index := next_index st + 1,
         threads := (threads st)[w := (if length texts \<le> next_index st then Finished
                                      else AtBody (next_index st))]\<rparr>"
      by (simp add: worker_step_def Let_def)
    then show ?thesis using inv_AtFetch[OF inv w AtFetch] by simp
  next
    case (AtBody k)
    with s w obtain ok doc h' where r: "worker_round m dp (texts ! k) (store st) = Some (ok, doc, h')"
      and st': "st' = st\<lparr>success_flag := (success_flag st \<and> ok), results := (results st)[k := doc],
         store := h', threads := (threads st)[w := AtWhile]\<rparr>"
      by (auto simp: worker_step_def split: if_splits option.splits)
    show ?thesis unfolding st' by (rule inv_AtBody[OF inv w AtBody r])
  next
    case Finished
    with s w inv show ?thesis by (simp add: worker_step_def)
  qed
qed

lemma run_schedule_inv:
  "batch_inv m dp texts st \<Longrightarrow> run_schedule m dp texts schedule st = Some st' \<Longrightarrow>
   batch_inv m dp texts st'"
proof (induction schedule arbitrary: st)
  case Nil
  then show ?case by simp
next
  case (Cons w ws)
  from Cons.prems(2) obtain st1 where s: "worker_step m dp texts w st = Some st1"
    and r: "run_schedule m dp texts ws st1 = Some st'"
    by (auto split: option.splits)
  from Cons.IH[OF worker_step_inv[OF Cons.prems(1) s] r] show ?case .
qed

lemma batch_start_inv: "batch_inv m dp texts (batch_start hw (length texts) h)"
  by (simp add: batch_inv_def batch_start_def claims_exclusive_def)

lemma worker_step_threads:
  "worker_step m dp texts w st = Some st' \<Longrightarrow> length (threads st') = length (threads st)"
  by (auto simp: worker_step_def Let_def split: if_splits worker.splits option.splits)

lemma run_schedule_threads:
  "run_schedule m dp texts schedule st = Some st' \<Longrightarrow> length (threads st') = length (threads st)"
proof (induction schedule arbitrary: st)
  case Nil
  then show ?case by simp
next
  case (Cons w ws)
  from Cons.prems obtain st1 where s: "worker_step m dp texts w st = Some st1"
    and r: "run_schedule m dp texts ws st1 = Some st'"
    by (auto split: option.splits)
  from Cons.IH[OF r] worker_step_threads[OF s] show ?case by simp
qed

lemma thread_count_pos: "0 < n \<Longrightarrow> 0 < thread_count hw n"
  by (simp add: thread_count_def Let_def)

text \<open>After the join, with the flag still set, every slot is done.\<close>

lemma joined_slots_done:
  assumes run: "run_schedule m dp texts schedule (batch_start hw (length texts) h) = Some st"
    and fin: "list_all (\<lambda>w. w = Finished) (threads st)"
    and flag: "success_flag st"
    and i: "i < length texts"
  shows "slot_done m dp (store st) (results st ! i) (texts ! i)"
proof -
  have inv: "batch_inv m dp texts st"
    using batch_start_inv run by (rule run_schedule_inv)
  note d = batch_invD[OF inv]
  have "length (threads st) = thread_count hw (length texts)"
    using run_schedule_threads[OF run] by (simp add: batch_start_def)
  moreover have "0 < thread_count hw (length texts)"
    by (rule thread_count_pos) (use i in auto)
  ultimately have "threads st \<noteq> []" by auto
  then obtain t where "t \<in> set (threads st)" by (cases "threads st") auto
  with fin have "Finished \<in> set (threads st)" by (auto simp: list_all_iff)
  from d(5)[OF flag this] i have "i < next_index st" by simp
  from d(4)[OF flag i this] fin show ?thesis by (auto simp: list_all_iff)
qed

lemma tag_batch_cases:
  assumes "udpipe_tag_batch hw schedule (Some m) (Some texts) do_parse (Some od) (Some os) h =
      Returned (r, out_docs, out_size, h')"
  obtains
    (failure) "r = 0" "out_docs = Some None" "out_size = Some 0"
  | (success) st p where
      "run_schedule m (do_parse \<noteq> 0) texts schedule (batch_start hw (length texts) h) = Some st"
      "list_all (\<lambda>w. w = Finished) (threads st)" "success_flag st"
      "malloc (DocArray (results st)) (store st) = (Some p, h')"
      "r = 1" "out_docs = Some (Some p)" "out_size = Some (length texts)"
  using assms
  by (auto simp: udpipe_tag_batch_def Let_def
      split: option.splits if_splits prod.splits)

text \<open>
  A call that returns either reports failure and hands out nothing, or reports success and
  hands out an array in which every slot holds the tagged document of its text.
\<close>

lemma tag_batch_all_or_nothing:
  assumes "udpipe_tag_batch hw schedule (Some m) (Some texts) do_parse (Some od) (Some os) h =
      Returned (r, out_docs, out_size, h')"
  shows "(r = 0 \<and> out_docs = Some None \<and> out_size = Some 0) \<or>
     (r = 1 \<and>
      (\<exists>p ds. out_docs = Some (Some p) \<and> out_size = Some (length texts) \<and>
         lookup h' p = Some (DocArray ds) \<and> length ds = length texts \<and>
         (\<forall>i<length texts. tagged_doc m (do_parse \<noteq> 0) h' (ds ! i) (texts ! i))))"
  using assms
proof (cases rule: tag_batch_cases)
  case failure
  then show ?thesis by simp
next
  case (success st p)
  have inv: "batch_inv m (do_parse \<noteq> 0) texts st"
    using batch_start_inv success(1) by (rule run_schedule_inv)
  have g: "grows (store st) h'" using success(4) by (rule malloc_None_grows)
  have "tagged_doc m (do_parse \<noteq> 0) h' (results st ! i) (texts ! i)" if "i < length texts" for i
  proof -
    have "slot_done m (do_parse \<noteq> 0) (store st) (results st ! i) (texts ! i)"
      using success(1,2,3) that by (rule joined_slots_done)
    from slot_done_grows[OF g this] show ?thesis by (simp add: slot_done_def)
  qed
  then show ?thesis
    using success(5,6,7) malloc_Some(2)[OF success(4)] batch_invD(1)[OF inv] by simp
qed

lemma tag_batch_guard:
  "handle = None \<or> utf8_texts = None \<or> out_docs = None \<or> out_size = None \<Longrightarrow>
   udpipe_tag_batch hw schedule handle utf8_texts do_parse out_docs out_size h =
     Returned (0, out_docs, out_size, h)"
  by (auto simp: udpipe_tag_batch_def split: option.splits)

text \<open>
  A round that fails with a sentence view in its vector does not come back: the cleanup
  frees the storage of the vector.
\<close>

lemma worker_round_undefined:
  assumes "m_new_tokenizer m [] = Some reader"
    and "sentence_loop (tag_and_parse m dp) tagged_token (length (cells h))
           (fst (reader x)) (snd (reader x)) []
           (snd (new_obj (ArenaObj (new_StringArena DEFAULT_BLOCK_SIZE)) h)) =
         Some (sentences, error, cs, h2)"
    and "sentences \<noteq> []"
    and "\<not> cs \<or> error \<noteq> [] \<or> fst (malloc (SentenceArray sentences) h2) = None"
  shows "worker_round m dp x h = None"
proof (cases "cs \<and> error = []")
  case False
  then show ?thesis using assms(1,2) free_partial_None[OF assms(3)]
    by (simp add: worker_round_def new_obj_def Let_def)
next
  case True
  with assms(4) have "fst (malloc (SentenceArray sentences) h2) = None" by simp
  then obtain h3 where "malloc (SentenceArray sentences) h2 = (None, h3)"
    by (cases "malloc (SentenceArray sentences) h2") simp
  then show ?thesis using True assms(1,2) free_partial_None[OF assms(3)]
    by (simp add: worker_round_def new_obj_def Let_def)
qed

subsection \<open>The threads can always be joined\<close>

lemma run_schedule_append:
  "run_schedule m dp texts (xs @ ys) st =
     (case run_schedule m dp texts xs st of None \<Rightarrow> None | Some st' \<Rightarrow> run_schedule m dp texts ys st')"
  by (induction xs arbitrary: st) (auto split: option.splits)

lemma run_finished:
  assumes "w < length (threads st)" "threads st ! w = Finished"
  shows "run_schedule m dp texts (replicate k w) st = Some st"
  using assms by (induction k) (simp_all add: worker_step_def)

text \<open>
  A thread at the head of its loop that runs alone for long enough leaves the loop, unless
  one of its rounds is undefined.
\<close>

lemma run_alone:
  assumes "w < length (threads st)" "threads st ! w = AtWhile"
    and "3 * (length texts - next_index st) + 2 \<le> k"
  shows "run_schedule m dp texts (replicate k w) st = None \<or>
     (\<exists>st'. run_schedule m dp texts (replicate k w) st = Some st' \<and>
        threads st' = (threads st)[w := Finished])"
  using assms
proof (induction "length texts - next_index st" arbitrary: st k rule: less_induct)
  case less
  note w = less.prems(1) and t = less.prems(2) and k = less.prems(3)
  from k obtain k1 where k1: "k = Suc k1" by (cases k) auto
  let ?x = "if success_flag st then AtFetch else Finished"
  let ?st1 = "st\<lparr>threads := (threads st)[w := ?x]\<rparr>"
  have s1: "worker_step m dp texts w st = Some ?st1" using w t by (simp add: worker_step_def)
  have r1: "run_schedule m dp texts (replicate k w) st = run_schedule m dp texts (replicate k1 w) ?st1"
    using s1 k1 by simp
  show ?case
  proof (cases "success_flag st")
    case False
    then have "run_schedule m dp texts (replicate k1 w) ?st1 = Some ?st1"
      using w by (intro run_finished) simp_all
    with r1 False show ?thesis by simp
  next
    case True
    from k k1 obtain k2 where k2: "k1 = Suc k2" by (cases k1) auto
    let ?j = "next_index st"
    let ?y = "if length texts \<le> ?j then Finished else AtBody ?j"
    let ?st2 = "st\<lparr>next_index := ?j + 1, threads := (threads st)[w := ?y]\<rparr>"
    have s2: "worker_step m dp texts w ?st1 = Some ?st2"
      using w True by (simp add: worker_step_def Let_def)
    have r2: "run_schedule m dp texts (replicate k w) st = run_schedule m dp texts (replicate k2 w) ?st2"
      using r1 s2 k2 by simp
    show ?thesis
    proof (cases "length texts \<le> ?j")
      case le: True
      then have "run_schedule m dp texts (replicate k2 w) ?st2 = Some ?st2"
        using w by (intro run_finished) simp_all
      with r2 le show ?thesis by simp
    next
      case gt: False
      from k k1 k2 gt obtain k3 where k3: "k2 = Suc k3" by (cases k2) auto
      show ?thesis
      proof (cases "worker_step m dp texts w ?st2")
        case None
        with r2 k3 show ?thesis by simp
      next
        case (Some st3)
        with w gt obtain ok doc h' where
          st3: "st3 = ?st2\<lparr>success_flag := (success_flag ?st2 \<and> ok),
                     results := (results ?st2)[?j := doc], store := h',
                     threads := (threads ?st2)[w := AtWhile]\<rparr>"
          by (auto simp: worker_step_def split: if_splits option.splits)
        have r3: "run_schedule m dp texts (replicate k w) st = run_schedule m dp texts (replicate k3 w) st3"
          using r2 Some k3 by simp
        have m3: "length texts - next_index st3 < length texts - next_index st"
          using gt st3 by simp
        have w3: "w < length (threads st3)" "threads st3 ! w = AtWhile"
          using w st3 by simp_all
        have k3': "3 * (length texts - next_index st3) + 2 \<le> k3"
          using k k1 k2 k3 gt st3 by simp
        from less.hyps[OF m3 w3 k3'] r3 st3 show ?thesis by auto
      qed
    qed
  qed
qed

lemma run_threads_in_turn:
  assumes "distinct ws" "\<forall>w\<in>set ws. w < length (threads st) \<and> threads st ! w = AtWhile"
    and "3 * length texts + 2 \<le> k"
  shows "run_schedule m dp texts (concat (map (\<lambda>w. replicate k w) ws)) st = None \<or>
     (\<exists>st'. run_schedule m dp texts (concat (map (\<lambda>w. replicate k w) ws)) st = Some st' \<and>
        length (threads st') = length (threads st) \<and>
        (\<forall>w\<in>set ws. threads st' ! w = Finished) \<and>
        (\<forall>v<length (threads st). v \<notin> set ws \<longrightarrow> threads st' ! v = threads st ! v))"
  using assms
proof (induction ws arbitrary: st)
  case Nil
  then show ?case by simp
next
  case (Cons w ws)
  have w: "w < length (threads st)" "threads st ! w = AtWhile" "w \<notin> set ws" "distinct ws"
    using Cons.prems(1,2) by simp_all
  have "3 * (length texts - next_index st) + 2 \<le> k" using Cons.prems(3) by simp
  from run_alone[where m = m and dp = dp, OF w(1,2) this]
  consider "run_schedule m dp texts (replicate k w) st = None"
    | st1 where "run_schedule m dp texts (replicate k w) st = Some st1"
        "threads st1 = (threads st)[w := Finished]" by auto
  then show ?case
  proof cases
    case 1
    then show ?thesis by (simp add: run_schedule_append)
  next
    case (2 st1)
    have a: "\<forall>v\<in>set ws. v < length (threads st1) \<and> threads st1 ! v = AtWhile"
    proof
      fix v assume v: "v \<in> set ws"
      then have "v \<noteq> w" using w(3) by auto
      then show "v < length (threads st1) \<and> threads st1 ! v = AtWhile"
        using Cons.prems(2) v 2(2) by simp
    qed
    from Cons.IH[OF w(4) a Cons.prems(3)]
    consider "run_schedule m dp texts (concat (map (\<lambda>w. replicate k w) ws)) st1 = None"
      | st' where "run_schedule m dp texts (concat (map (\<lambda>w. replicate k w) ws)) st1 = Some st'"
          "length (threads st') = length (threads st1)"
          "\<forall>v\<in>set ws. threads st' ! v = Finished"
          "\<forall>v<length (threads st1). v \<notin> set ws \<longrightarrow> threads st' ! v = threads st1 ! v"
      by auto
    then show ?thesis
    proof cases
      case 1
      with 2(1) show ?thesis by (simp add: run_schedule_append)
    next
      case (2 st')
      have run: "run_schedule m dp texts (concat (map (\<lambda>w. replicate k w) (w # ws))) st = Some st'"
        using \<open>run_schedule m dp texts (replicate k w) st = Some st1\<close> 2(1)
        by (simp add: run_schedule_append)
      have len: "length (threads st') = length (threads st)"
        using 2(2) \<open>threads st1 = (threads st)[w := Finished]\<close> by simp
      have "threads st' ! w = Finished"
        using 2(4) w(1,3) \<open>threads st1 = (threads st)[w := Finished]\<close> by simp
      then have fin: "\<forall>v\<in>set (w # ws). threads st' ! v = Finished" using 2(3) by simp
      have rest: "\<forall>v<length (threads st). v \<notin> set (w # ws) \<longrightarrow> threads st' ! v = threads st ! v"
        using 2(4) \<open>threads st1 = (threads st)[w := Finished]\<close> by simp
      from run len fin rest show ?thesis by blast
    qed
  qed
qed

text \<open>
  Under the schedule that lets the threads run one after the other, each for
  \<open>3 * batch_size + 2\<close> steps, every thread has left its loop: the call returns or is
  undefined, for every batch.
\<close>

lemma sequential_schedule_joins:
  "udpipe_tag_batch hw (sequential_schedule (thread_count hw (length texts)) (length texts))
     (Some m) (Some texts) do_parse (Some od) (Some os) h \<noteq> Unjoined"
proof -
  let ?T = "thread_count hw (length texts)"
  let ?st = "batch_start hw (length texts) h"
  let ?sched = "concat (map (\<lambda>w. replicate (3 * length texts + 2) w) [0..<?T])"
  have a: "\<forall>w\<in>set [0..<?T]. w < length (threads ?st) \<and> threads ?st ! w = AtWhile"
    by (simp add: batch_start_def)
  from run_threads_in_turn[where m = m and dp = "do_parse \<noteq> 0" and texts = texts, OF distinct_upt a order_refl]
  consider "run_schedule m (do_parse \<noteq> 0) texts ?sched ?st = None"
    | st' where "run_schedule m (do_parse \<noteq> 0) texts ?sched ?st = Some st'"
        "length (threads st') = length (threads ?st)" "\<forall>w\<in>set [0..<?T]. threads st' ! w = Finished"
    by auto
  then show ?thesis
  proof cases
    case 1
    then show ?thesis by (simp add: udpipe_tag_batch_def sequential_schedule_def Let_def)
  next
    case (2 st')
    have "length (threads st') = ?T" using 2(2) by (simp add: batch_start_def)
    with 2(3) have "list_all (\<lambda>w. w = Finished) (threads st')"
      by (auto simp: list_all_iff in_set_conv_nth)
    with 2(1) show ?thesis
      by (auto simp: udpipe_tag_batch_def sequential_schedule_def Let_def
          split: option.splits prod.splits)
  qed
qed

section \<open>Claims about the batch\<close>

text \<open>
  Claim C5. Whatever the number of threads and the order of their steps: if
  \<^verbatim>\<open>udpipe_tag_batch\<close> returns 1, the array it hands out has one document for each text and
  the document at index \<open>i\<close> is the tagged document of the text at index \<open>i\<close>. At every
  point of the execution no index is held by two threads (and a round writes the slot of
  the index its thread holds).
\<close>

theorem tag_batch_order:
  "(udpipe_tag_batch hw schedule (Some m) (Some texts) do_parse (Some od) (Some os) h =
      Returned (1, out_docs, out_size, h') \<longrightarrow>
    (\<exists>p ds. out_docs = Some (Some p) \<and> out_size = Some (length texts) \<and>
       lookup h' p = Some (DocArray ds) \<and> length ds = length texts \<and>
       (\<forall>i<length texts. tagged_doc m (do_parse \<noteq> 0) h' (ds ! i) (texts ! i)))) \<and>
   (\<forall>k st. run_schedule m (do_parse \<noteq> 0) texts (take k schedule)
              (batch_start hw (length texts) h) = Some st \<longrightarrow> claims_exclusive st)"
proof (intro conjI impI allI)
  assume "udpipe_tag_batch hw schedule (Some m) (Some texts) do_parse (Some od) (Some os) h =
      Returned (1, out_docs, out_size, h')"
  from tag_batch_all_or_nothing[OF this]
  show "\<exists>p ds. out_docs = Some (Some p) \<and> out_size = Some (length texts) \<and>
       lookup h' p = Some (DocArray ds) \<and> length ds = length texts \<and>
       (\<forall>i<length texts. tagged_doc m (do_parse \<noteq> 0) h' (ds ! i) (texts ! i))"
    by simp
next
  fix k st
  assume "run_schedule m (do_parse \<noteq> 0) texts (take k schedule)
      (batch_start hw (length texts) h) = Some st"
  with batch_start_inv have "batch_inv m (do_parse \<noteq> 0) texts st" by (rule run_schedule_inv)
  then show "claims_exclusive st" by (rule batch_invD(2))
qed

lemma replicate_two: "replicate 2 x = [x, x]"
  by (simp add: numeral_2_eq_2)

lemmas batch_eval_defs = replicate_two
  udpipe_tag_batch_def batch_start_def thread_count_def worker_step_def
  worker_round_def read_sentences_def free_def delete_arena_def

lemma demo_batch_returns:
  "\<exists>p h'. demo_batch = Returned (1, Some (Some p), Some 2, h') \<and>
     map_option (\<lambda>ob. case ob of DocArray ds \<Rightarrow> map doc_count ds | _ \<Rightarrow> []) (lookup h' p) = Some [1, 2]"
  by (simp add: demo_batch_def batch_eval_defs eval_defs)

theorem tag_batch_order_witness:
  "case demo_batch of
     Returned (r, od, os, h') \<Rightarrow>
       r = 1 \<and> os = Some 2 \<and>
       (case od of
          Some (Some p) \<Rightarrow>
            (case lookup h' p of
               Some (DocArray ds) \<Rightarrow>
                 map doc_count ds = [1, 2] \<and>
                 tagged_doc demo_model False h' (ds ! 0) ''Dogs run.'' \<and>
                 tagged_doc demo_model False h' (ds ! 1) ''Dogs run. Cats sit.''
             | _ \<Rightarrow> False)
        | _ \<Rightarrow> False)
   | _ \<Rightarrow> False"
proof -
  from demo_batch_returns obtain p h' where c: "demo_batch = Returned (1, Some (Some p), Some 2, h')"
    and n: "map_option (\<lambda>ob. case ob of DocArray ds \<Rightarrow> map doc_count ds | _ \<Rightarrow> []) (lookup h' p) = Some [1, 2]"
    by auto
  have call: "udpipe_tag_batch 2 [1, 1, 0, 0, 0, 1, 0, 0, 1, 1] (Some demo_model)
       (Some [''Dogs run.'', ''Dogs run. Cats sit.'']) 0 (Some None) (Some 0) empty_heap =
     Returned (1, Some (Some p), Some 2, h')"
    using c by (simp add: demo_batch_def)
  from tag_batch_order[where hw = 2 and schedule = "[1, 1, 0, 0, 0, 1, 0, 0, 1, 1]" and m = demo_model
      and texts = "[''Dogs run.'', ''Dogs run. Cats sit.'']" and do_parse = 0 and od = None and os = 0
      and h = empty_heap and out_docs = "Some (Some p)" and out_size = "Some 2" and h' = h'] call
  obtain ds where ds: "lookup h' p = Some (DocArray ds)"
      "\<forall>i<2. tagged_doc demo_model False h' (ds ! i) ([''Dogs run.'', ''Dogs run. Cats sit.''] ! i)"
    by auto
  from ds(2) have "tagged_doc demo_model False h' (ds ! 0) ''Dogs run.''"
      "tagged_doc demo_model False h' (ds ! 1) ''Dogs run. Cats sit.''"
    by (auto simp: numeral_2_eq_2 less_Suc_eq)
  then show ?thesis unfolding c using ds(1) n by simp
qed

text \<open>
  Claim C1 (all-or-nothing batch) is right about the design, but the code does not keep it
  when a text fails after a sentence has been built: the worker then passes the storage of
  its \<^verbatim>\<open>std::vector\<close> to \<^verbatim>\<open>std::free\<close> inside \<^verbatim>\<open>udpipe_free_doc(&tmp)\<close> (lines 366 and 376), which
  is undefined behaviour, so the call does not return 0. Two inputs on which this happens:
  the allocation of the sentence array of a one-sentence text fails; the tagger fails on
  the second sentence of a text.
\<close>

theorem tag_batch_cleanup_undefined:
  "demo_batch_no_memory = Undefined \<and> demo_batch_tagger_fails = Undefined"
  by (simp add: demo_batch_no_memory_def demo_batch_tagger_fails_def picky_model_def
      batch_eval_defs eval_defs)

text \<open>
  The worker of the batch records every \<^verbatim>\<open>false\<close> of the tagger in \<^verbatim>\<open>current_success\<close> (line
  331): with the tagger that gives up without a message on the only sentence of the only
  text, the batch returns 0.
\<close>

lemma mute_batch_reports_failure:
  "demo_mute_batch = Returned (0, Some None, Some 0, \<lparr>cells = [None], outcomes = []\<rparr>)"
  by (simp add: demo_mute_batch_def mute_model_def batch_eval_defs eval_defs)


end
